theory Spec2Isabelle
  imports Main
begin

section \<open>Data model (include/philo.h)\<close>

text \<open>
  The C structures \<^verbatim>\<open>t_philo\<close> and \<^verbatim>\<open>t_table\<close> become records. The field \<^verbatim>\<open>id\<close> is
  named \<open>philo_id\<close> and the (never used) table field \<^verbatim>\<open>meal_count\<close> is named
  \<open>meal_count_table\<close>, because the plain names are taken. A pointer \<^verbatim>\<open>t_philo *\<close> is
  the index of the philosopher in \<^verbatim>\<open>table->philo\<close>; the back pointer \<^verbatim>\<open>philo->table\<close>
  is the table that is passed along. The C type \<^verbatim>\<open>int\<close> of the fields is modelled by
  unbounded integers; the one place where a bound decides a result, \<^verbatim>\<open>ft_atoi\<close>, carries
  its 64-bit arithmetic explicitly.
\<close>

record t_philo =
  philo_id :: int
  meal_count :: int
  left_fork :: int
  right_fork :: int
  last_meal :: int

datatype mutex = Fork_padlock int | Print_padlock | Eat_padlock | End_padlock

text \<open>
  What a thread does to the outside is recorded as a list of events, in program order:
  mutex operations, the two \<^verbatim>\<open>printf\<close> forms of \<^verbatim>\<open>print_action\<close>, the writes of
  \<^verbatim>\<open>ft_putstr_fd\<close>, and the thread and memory calls of setup and teardown.
\<close>

datatype event =
    Mutex_init mutex
  | Mutex_destroy mutex
  | Lock mutex
  | Unlock mutex
  | Printf_line int int string
  | Printf_msg string
  | Write_fd int string
  | Thread_create int
  | Thread_join int
  | Free_philo
  | Free_fork_padlock

record t_table =
  philosopher_count :: int
  time_to_die :: int
  time_to_eat :: int
  time_to_sleep :: int
  start_time :: int
  must_eat_count :: int
  meal_count_table :: int
  is_full :: int
  end_flag :: int
  philo :: "t_philo list"

text \<open>
  The world of one thread: the shared table, an idealised wall clock in microseconds
  that only \<^verbatim>\<open>usleep\<close> advances, the events so far, and the answers of the operating
  system to the calls that can fail: whether \<^verbatim>\<open>malloc\<close> fails, the values that
  \<^verbatim>\<open>pthread_mutex_init\<close> (per mutex) and \<^verbatim>\<open>pthread_create\<close> (per philosopher
  index) return, 0 for success, and the answers of \<^verbatim>\<open>write\<close> to the calls to come.

  An answer of \<^verbatim>\<open>write\<close> is the number of bytes it transfers (at most \<open>k\<close> for
  \<open>Written k\<close>), or \<open>-1\<close> with \<^verbatim>\<open>errno\<close> \<^verbatim>\<open>EINTR\<close> (\<open>Interrupted\<close>), or \<open>-1\<close> with
  another \<^verbatim>\<open>errno\<close> (\<open>Write_error\<close>). The list holds the answers that are not a full
  transfer: once it is used up, every \<^verbatim>\<open>write\<close> transfers all it is given.

  Every function of the source is a function on worlds that follows the thread which
  calls it. What the other threads have done before the call is in the world the function
  starts from, and the theorems about a function hold from every such world; what they do
  while the function runs is not interleaved. A run of several functions in a row is
  therefore one schedule of the program among others.
\<close>

datatype write_answer = Written nat | Interrupted | Write_error

record world = t_table +
  usec :: int
  events :: "event list"
  malloc_fails :: bool
  mutex_init_result :: "mutex \<Rightarrow> int"
  pthread_create_result :: "int \<Rightarrow> int"
  write_answers :: "write_answer list"

text \<open>\<^verbatim>\<open>exit(status)\<close> ends the process: a function that may call it returns
  \<open>Inl (status, w)\<close> with the world at that moment, and \<open>Inr\<close> when it returns normally.\<close>

type_synonym outcome = "(int \<times> world) + world"

text \<open>One call after another: what follows a call that has left the process is not
  run.\<close>

definition and_then :: "outcome \<Rightarrow> (world \<Rightarrow> outcome) \<Rightarrow> outcome" where
  "and_then r f = (case r of Inl e \<Rightarrow> Inl e | Inr w \<Rightarrow> f w)"

definition EXIT_SUCCESS :: int where "EXIT_SUCCESS = 0"
definition EXIT_FAILURE :: int where "EXIT_FAILURE = 1"
definition INT_MAX :: int where "INT_MAX = 2147483647"
definition MAX_PHILO :: int where "MAX_PHILO = 200"

definition TAKE :: string where "TAKE = ''has taken a fork''"
definition EAT :: string where "EAT = ''is eating''"
definition SLEEP :: string where "SLEEP = ''is sleeping''"
definition THINK :: string where "THINK = ''is thinking''"
definition DIE :: string where "DIE = ''died''"
definition END :: string where "END = ''e''"
definition END_MSG :: string where "END_MSG = ''All philosophers ate enough!''"

definition emit :: "event \<Rightarrow> world \<Rightarrow> world" where
  "emit e w = w\<lparr>events := events w @ [e]\<rparr>"

section \<open>Utilities (srcs/cooks.c)\<close>

text \<open>A plain \<^verbatim>\<open>char\<close> promoted to \<^verbatim>\<open>int\<close>, read as signed (as on x86-64); for the
  ASCII characters both readings of \<^verbatim>\<open>char\<close> agree.\<close>

definition c_char :: "char \<Rightarrow> int" where
  "c_char c = (if (of_char c :: int) < 128 then of_char c else of_char c - 256)"

text \<open>A value of type \<^verbatim>\<open>long long\<close>: 64 bits, two's complement.\<close>

definition ll :: "int \<Rightarrow> int" where
  "ll x = (x + 2 ^ 63) mod 2 ^ 64 - 2 ^ 63"

text \<open>The conversion of a \<^verbatim>\<open>long long\<close> to \<^verbatim>\<open>int\<close> in an assignment.\<close>

definition int_of_ll :: "int \<Rightarrow> int" where
  "int_of_ll x = (x + 2 ^ 31) mod 2 ^ 32 - 2 ^ 31"

text \<open>C's \<^verbatim>\<open>/\<close> and \<^verbatim>\<open>%\<close> truncate towards zero.\<close>

definition c_div :: "int \<Rightarrow> int \<Rightarrow> int" where
  "c_div a b = (if (a < 0) = (b < 0) then \<bar>a\<bar> div \<bar>b\<bar> else - (\<bar>a\<bar> div \<bar>b\<bar>))"

definition c_mod :: "int \<Rightarrow> int \<Rightarrow> int" where
  "c_mod a b = a - b * c_div a b"

definition get_current_time :: "world \<Rightarrow> int" where
  "get_current_time w = usec w div 1000"

definition usleep :: "int \<Rightarrow> world \<Rightarrow> world" where
  "usleep n w = w\<lparr>usec := usec w + n\<rparr>"

definition ft_check_overflow :: "int \<Rightarrow> char \<Rightarrow> bool" where
  "ft_check_overflow num digit =
     (let cutoff = c_div INT_MAX 10
      in num > cutoff \<or> (num = cutoff \<and> c_char digit - c_char CHR ''0'' > c_mod INT_MAX 10))"

text \<open>The loop of \<^verbatim>\<open>ft_atoi\<close>; a C string ends at its first NUL.\<close>

fun ft_atoi_loop :: "int \<Rightarrow> string \<Rightarrow> int" where
  "ft_atoi_loop num [] = num"
| "ft_atoi_loop num (c # cs) =
     (if c = CHR 0x00 then num
      else if ft_check_overflow num c then - 1
      else ft_atoi_loop (ll (ll (num * 10) + (c_char c - c_char CHR ''0''))) cs)"

definition ft_atoi :: "string \<Rightarrow> int" where
  "ft_atoi str = ft_atoi_loop 0 str"

fun ft_strlen :: "string \<Rightarrow> nat" where
  "ft_strlen [] = 0"
| "ft_strlen (c # cs) = (if c = CHR 0x00 then 0 else Suc (ft_strlen cs))"

text \<open>\<^verbatim>\<open>write(fd, buf, count)\<close>: the answer of the operating system, and the bytes that
  have reached the descriptor as an event.\<close>

definition c_write :: "int \<Rightarrow> string \<Rightarrow> nat \<Rightarrow> world \<Rightarrow> write_answer \<times> world" where
  "c_write fd buf count w =
     (case write_answers w of
        [] \<Rightarrow> (Written count, emit (Write_fd fd (take count buf)) w)
      | Written k # rest \<Rightarrow>
          (Written (min k count),
           emit (Write_fd fd (take (min k count) buf)) (w\<lparr>write_answers := rest\<rparr>))
      | a # rest \<Rightarrow> (a, w\<lparr>write_answers := rest\<rparr>))"

text \<open>The loop of \<^verbatim>\<open>ft_putstr_fd\<close>: an interrupted \<^verbatim>\<open>write\<close> is tried again, any other
  error of \<^verbatim>\<open>write\<close> ends the process with \<^verbatim>\<open>exit(EXIT_FAILURE)\<close>. A string is never
  \<^verbatim>\<open>NULL\<close> here, and no caller reads the count that is returned, so the outcome is
  the world only.\<close>

function ft_putstr_fd_loop :: "int \<Rightarrow> string \<Rightarrow> nat \<Rightarrow> nat \<Rightarrow> world \<Rightarrow> outcome" where
  "ft_putstr_fd_loop fd str total_written len w =
     (if total_written < len then
        (case c_write fd (drop total_written str) (len - total_written) w of
           (Written bytes_written, w1) \<Rightarrow>
             ft_putstr_fd_loop fd str (total_written + bytes_written) len w1
         | (Interrupted, w1) \<Rightarrow> ft_putstr_fd_loop fd str total_written len w1
         | (Write_error, w1) \<Rightarrow> Inl (EXIT_FAILURE, w1))
      else Inr w)"
  by pat_completeness auto
termination
  by (relation "measure (\<lambda>(fd, str, total_written, len, w).
        2 * length (write_answers w) + (if total_written < len then 1 else 0))")
     (auto simp: c_write_def emit_def split: list.splits write_answer.splits)

declare ft_putstr_fd_loop.simps [simp del]

definition ft_putstr_fd :: "int \<Rightarrow> string \<Rightarrow> world \<Rightarrow> outcome" where
  "ft_putstr_fd fd str w = ft_putstr_fd_loop fd str 0 (ft_strlen str) w"

section \<open>Argument validation (srcs/receive_guests.c)\<close>

definition check_value :: "int \<Rightarrow> int \<Rightarrow> world \<Rightarrow> outcome" where
  "check_value v i w =
     (if v = - 1 then
        and_then (ft_putstr_fd 2 ''Error: integer overflow detected\<newline>'' w)
          (\<lambda>w1. Inl (EXIT_FAILURE, w1))
      else if i = 1 \<and> (v \<le> 0 \<or> v > MAX_PHILO) then
        and_then (ft_putstr_fd 2 ''Error: <number_of_philosophers> '' w)
          (\<lambda>w1. and_then (ft_putstr_fd 2 ''must be between 1 and 200\<newline>'' w1)
          (\<lambda>w2. Inl (EXIT_FAILURE, w2)))
      else if i = 5 \<and> v \<le> 0 then
        and_then (ft_putstr_fd 2 ''Error: <nbr_of_times_each_philosopher_must_eat> '' w)
          (\<lambda>w1. and_then (ft_putstr_fd 2 ''must be an integer greater than 0\<newline>'' w1)
          (\<lambda>w2. Inl (EXIT_FAILURE, w2)))
      else if (i > 1 \<and> i < 5) \<and> v < 1 then
        and_then (ft_putstr_fd 2 ''Error: '' w)
          (\<lambda>w1. and_then (ft_putstr_fd 2 ''<time_to_die> <time_to_eat> <time_to_sleep> '' w1)
          (\<lambda>w2. and_then (ft_putstr_fd 2 ''must be integers greater than 0\<newline>'' w2)
          (\<lambda>w3. Inl (EXIT_FAILURE, w3))))
      else Inr w)"

fun check_syntax :: "string \<Rightarrow> world \<Rightarrow> outcome" where
  "check_syntax [] w = Inr w"
| "check_syntax (c # cs) w =
     (if c = CHR 0x00 then Inr w
      else if c_char c < c_char CHR ''0'' \<or> c_char c > c_char CHR ''9'' then
        and_then (ft_putstr_fd 2 ''Wrong format: '' w)
          (\<lambda>w1. and_then (ft_putstr_fd 2 ''Arguments can only be positive integers\<newline>'' w1)
          (\<lambda>w2. Inl (EXIT_FAILURE, w2)))
      else check_syntax cs w)"

text \<open>The loop of \<^verbatim>\<open>validate_arguments\<close>, from index \<open>i\<close>.\<close>

function validate_arguments_loop :: "int \<Rightarrow> int \<Rightarrow> string list \<Rightarrow> world \<Rightarrow> outcome" where
  "validate_arguments_loop i argc argv w =
     (if i < argc then
        (case check_syntax (argv ! nat i) w of
           Inl e \<Rightarrow> Inl e
         | Inr w1 \<Rightarrow>
             (case check_value (ft_atoi (argv ! nat i)) i w1 of
                Inl e \<Rightarrow> Inl e
              | Inr w2 \<Rightarrow> validate_arguments_loop (i + 1) argc argv w2))
      else Inr w)"
  by pat_completeness auto
termination
  by (relation "measure (\<lambda>(i, argc, argv, w). nat (argc - i))") auto

definition validate_arguments :: "int \<Rightarrow> string list \<Rightarrow> world \<Rightarrow> outcome" where
  "validate_arguments argc argv w = validate_arguments_loop 1 argc argv w"

definition validate_argument_count :: "int \<Rightarrow> world \<Rightarrow> outcome" where
  "validate_argument_count argc w =
     (if argc < 5 \<or> argc > 6 then
        and_then (ft_putstr_fd 2 ''Wrong format\<newline>'' w)
          (\<lambda>w1. and_then (ft_putstr_fd 2 ''Usage: '' w1)
          (\<lambda>w2. and_then (ft_putstr_fd 2 ''./philo <number_of_philosophers> '' w2)
          (\<lambda>w3. and_then (ft_putstr_fd 2 ''<time_to_die> <time_to_eat> <time_to_sleep>\<newline>'' w3)
          (\<lambda>w4. and_then (ft_putstr_fd 2 '' (Opt : <nbr_of_times_each_philosopher_must_eat>)\<newline>'' w4)
          (\<lambda>w5. Inl (EXIT_FAILURE, w5))))))
      else Inr w)"

definition receive_guests :: "int \<Rightarrow> string list \<Rightarrow> world \<Rightarrow> outcome" where
  "receive_guests argc argv w =
     (case validate_argument_count argc w of
        Inl e \<Rightarrow> Inl e
      | Inr w1 \<Rightarrow> validate_arguments argc argv w1)"

section \<open>Timing, logging and the end flag (srcs/waiters.c)\<close>

text \<open>A mutex operation of the running thread is recorded in program order. The model
  follows one thread; whether a lock request can be granted is read off the recorded
  sequence afterwards (section on lock discipline).\<close>

definition pthread_mutex_lock :: "mutex \<Rightarrow> world \<Rightarrow> world" where
  "pthread_mutex_lock m w = emit (Lock m) w"

definition pthread_mutex_unlock :: "mutex \<Rightarrow> world \<Rightarrow> world" where
  "pthread_mutex_unlock m w = emit (Unlock m) w"

definition pthread_mutex_destroy :: "mutex \<Rightarrow> world \<Rightarrow> world" where
  "pthread_mutex_destroy m w = emit (Mutex_destroy m) w"

definition is_dinner_over :: "nat \<Rightarrow> bool \<Rightarrow> world \<Rightarrow> bool \<times> world" where
  "is_dinner_over p order w =
     (let w1 = pthread_mutex_lock End_padlock w
      in if order \<or> end_flag w1 \<noteq> 0 then
           (let w2 = (if order then w1\<lparr>end_flag := 1\<rparr> else w1)
            in (True, pthread_mutex_unlock End_padlock w2))
         else (False, pthread_mutex_unlock End_padlock w1))"

text \<open>The polling loop of \<^verbatim>\<open>advance_time\<close>. It ends because every round sleeps 100
  microseconds and the clock is read in milliseconds.\<close>

function advance_time_loop :: "nat \<Rightarrow> int \<Rightarrow> int \<Rightarrow> world \<Rightarrow> world" where
  "advance_time_loop p start time_to w =
     (case is_dinner_over p False w of
        (over, w1) \<Rightarrow>
          if \<not> over \<and> get_current_time w1 - start < time_to
          then advance_time_loop p start time_to (usleep 100 w1)
          else w1)"
  by pat_completeness auto
termination
  by (relation "measure (\<lambda>(p, start, time_to, w). nat ((start + time_to) * 1000 - usec w))")
     (auto simp: is_dinner_over_def pthread_mutex_lock_def pthread_mutex_unlock_def emit_def
        usleep_def get_current_time_def Let_def split: if_splits)

declare advance_time_loop.simps [simp del]

definition advance_time :: "nat \<Rightarrow> int \<Rightarrow> world \<Rightarrow> world" where
  "advance_time p time_to w = advance_time_loop p (get_current_time w) time_to w"

text \<open>\<^verbatim>\<open>action[0]\<close> of a C string: the terminating NUL when the string is empty.\<close>

definition first_char :: "string \<Rightarrow> char" where
  "first_char s = (case s of [] \<Rightarrow> CHR 0x00 | c # _ \<Rightarrow> c)"

definition print_action :: "nat \<Rightarrow> string \<Rightarrow> world \<Rightarrow> world" where
  "print_action p action w =
     (let w1 = pthread_mutex_lock Print_padlock w
      in case is_dinner_over p False w1 of
           (over, w2) \<Rightarrow>
             (let w3 = (if \<not> over then
                          emit (Printf_line (get_current_time w2 - start_time w2)
                                  (philo_id (philo w2 ! p)) action) w2
                        else w2);
                  w4 = pthread_mutex_unlock Print_padlock w3
              in if first_char action = CHR ''e'' then emit (Printf_msg END_MSG) w4 else w4))"

section \<open>The philosopher thread (srcs/dinner_routine.c)\<close>

definition dinner_time :: "nat \<Rightarrow> world \<Rightarrow> world" where
  "dinner_time p w =
     (let w1 = (if c_mod (philo_id (philo w ! p)) 2 = 0 then
                  pthread_mutex_lock (Fork_padlock (right_fork (philo w ! p)))
                    (pthread_mutex_lock (Fork_padlock (left_fork (philo w ! p))) w)
                else
                  pthread_mutex_lock (Fork_padlock (left_fork (philo w ! p)))
                    (pthread_mutex_lock (Fork_padlock (right_fork (philo w ! p))) w));
          w2 = print_action p TAKE w1;
          w3 = print_action p TAKE w2;
          w4 = print_action p EAT w3;
          w5 = advance_time p (time_to_eat w4) w4;
          w6 = pthread_mutex_lock Eat_padlock w5;
          w7 = w6\<lparr>philo := (philo w6)[p := (philo w6 ! p)\<lparr>meal_count := meal_count (philo w6 ! p) + 1\<rparr>]\<rparr>;
          w8 = w7\<lparr>philo := (philo w7)[p := (philo w7 ! p)\<lparr>last_meal := get_current_time w7\<rparr>]\<rparr>;
          w9 = pthread_mutex_unlock Eat_padlock w8;
          w10 = pthread_mutex_unlock (Fork_padlock (right_fork (philo w9 ! p))) w9
      in pthread_mutex_unlock (Fork_padlock (left_fork (philo w10 ! p))) w10)"

definition lone_philosopher :: "world \<Rightarrow> world" where
  "lone_philosopher w =
     (let w1 = print_action 0 TAKE w;
          w2 = advance_time 0 (time_to_die w1) w1;
          w3 = print_action 0 DIE w2
      in snd (is_dinner_over 0 True w3))"

text \<open>The \<^verbatim>\<open>while (true)\<close> loop of \<^verbatim>\<open>dinner_routine\<close> has no bound of its own: the first
  argument bounds the number of rounds, and the boolean tells whether the thread has
  returned (\<open>False\<close>: the rounds ran out first).\<close>

fun dinner_routine_loop :: "nat \<Rightarrow> nat \<Rightarrow> world \<Rightarrow> bool \<times> world" where
  "dinner_routine_loop 0 p w = (False, w)"
| "dinner_routine_loop (Suc n) p w =
     (if philosopher_count w = 1 then (True, lone_philosopher w)
      else
        (case is_dinner_over p False w of
           (over, w1) \<Rightarrow>
             if over then (True, w1)
             else
               (let w2 = print_action p THINK w1;
                    w3 = dinner_time p w2;
                    w4 = print_action p SLEEP w3;
                    w5 = advance_time p (time_to_sleep w4) w4;
                    w6 = (if c_mod (philosopher_count w5) 2 \<noteq> 0
                          then advance_time p (time_to_eat w5) w5 else w5)
                in dinner_routine_loop n p w6)))"

definition dinner_routine :: "nat \<Rightarrow> nat \<Rightarrow> world \<Rightarrow> bool \<times> world" where
  "dinner_routine n p w =
     (let w1 = (if c_mod (philo_id (philo w ! p)) 2 = 0
                then advance_time p (c_div (time_to_eat w) 2) w else w)
      in dinner_routine_loop n p w1)"

section \<open>The monitor (srcs/dinner_monitor.c)\<close>

definition clean_table :: "world \<Rightarrow> world" where
  "clean_table w = emit Free_fork_padlock (emit Free_philo w)"

text \<open>The loops \<^verbatim>\<open>i = -1; while (++i < n)\<close> are written with the value of \<open>i\<close> after
  the increment.\<close>

function unset_rules_loop :: "int \<Rightarrow> world \<Rightarrow> world" where
  "unset_rules_loop i w =
     (if i < philosopher_count w
      then unset_rules_loop (i + 1) (pthread_mutex_destroy (Fork_padlock i) w)
      else w)"
  by pat_completeness auto
termination
  by (relation "measure (\<lambda>(i, w). nat (philosopher_count w - i))")
     (auto simp: pthread_mutex_destroy_def emit_def)

declare unset_rules_loop.simps [simp del]

definition unset_rules :: "world \<Rightarrow> world" where
  "unset_rules w =
     pthread_mutex_destroy End_padlock
       (pthread_mutex_destroy Eat_padlock
         (pthread_mutex_destroy Print_padlock (unset_rules_loop 0 w)))"

function end_dinner_loop :: "int \<Rightarrow> world \<Rightarrow> world" where
  "end_dinner_loop i w =
     (if i < philosopher_count w
      then end_dinner_loop (i + 1) (emit (Thread_join i) w)
      else w)"
  by pat_completeness auto
termination
  by (relation "measure (\<lambda>(i, w). nat (philosopher_count w - i))")
     (auto simp: emit_def)

declare end_dinner_loop.simps [simp del]

definition end_dinner :: "world \<Rightarrow> world" where
  "end_dinner w = clean_table (unset_rules (end_dinner_loop 0 w))"

definition is_someone_dead_or_full :: "nat \<Rightarrow> world \<Rightarrow> bool \<times> world" where
  "is_someone_dead_or_full p w =
     (let w1 = pthread_mutex_lock Eat_padlock w
      in if get_current_time w1 - last_meal (philo w1 ! p) \<ge> time_to_die w1 then
           (let w2 = print_action p DIE w1;
                w3 = snd (is_dinner_over p True w2)
            in (True, pthread_mutex_unlock Eat_padlock w3))
         else if must_eat_count w1 > 0 \<and> meal_count (philo w1 ! p) \<ge> must_eat_count w1 then
           (let w2 = w1\<lparr>is_full := is_full w1 + 1\<rparr>
            in if is_full w2 \<ge> philosopher_count w2 then
                 (let w3 = snd (is_dinner_over p True w2);
                      w4 = print_action p END w3
                  in (True, pthread_mutex_unlock Eat_padlock w4))
               else (False, pthread_mutex_unlock Eat_padlock w2))
         else (False, pthread_mutex_unlock Eat_padlock w1))"

text \<open>The inner loop of \<^verbatim>\<open>dinner_monitor\<close>: one pass over the philosophers, from index
  \<open>i\<close>, with the current \<^verbatim>\<open>continue_flag\<close>.\<close>

function monitor_pass :: "int \<Rightarrow> int \<Rightarrow> world \<Rightarrow> int \<times> world" where
  "monitor_pass i continue_flag w =
     (if i < philosopher_count w then
        (if continue_flag \<noteq> 0 then
           (case is_someone_dead_or_full (nat i) w of
              (r, w1) \<Rightarrow> monitor_pass (i + 1) (if r then 0 else continue_flag) w1)
         else monitor_pass (i + 1) continue_flag w)
      else (continue_flag, w))"
  by pat_completeness auto
termination
  by (relation "measure (\<lambda>(i, c, w). nat (philosopher_count w - i))")
     (auto simp: is_someone_dead_or_full_def print_action_def is_dinner_over_def
        pthread_mutex_lock_def pthread_mutex_unlock_def emit_def Let_def split: if_splits)

declare monitor_pass.simps [simp del]

text \<open>The outer loop of \<^verbatim>\<open>dinner_monitor\<close>, bounded like the loop of the philosopher:
  \<open>False\<close> when the passes ran out before the loop was left.\<close>

fun dinner_monitor_loop :: "nat \<Rightarrow> world \<Rightarrow> bool \<times> world" where
  "dinner_monitor_loop 0 w = (False, w)"
| "dinner_monitor_loop (Suc n) w =
     (case monitor_pass 0 1 (w\<lparr>is_full := 0\<rparr>) of
        (continue_flag, w1) \<Rightarrow>
          (let w2 = usleep 10 w1
           in if continue_flag \<noteq> 0 then dinner_monitor_loop n w2 else (True, w2)))"

definition dinner_monitor :: "nat \<Rightarrow> world \<Rightarrow> bool \<times> world" where
  "dinner_monitor n w =
     (case dinner_monitor_loop n w of
        (left, w1) \<Rightarrow> if left then (True, end_dinner w1) else (False, w1))"

section \<open>Setup (srcs/set_dinner.c, srcs/set_rules.c) and \<^verbatim>\<open>main\<close>\<close>

definition set_table :: "int \<Rightarrow> string list \<Rightarrow> world \<Rightarrow> world" where
  "set_table argc argv w =
     (let w1 = w\<lparr>philosopher_count := int_of_ll (ft_atoi (argv ! 1))\<rparr>;
          w2 = w1\<lparr>time_to_die := int_of_ll (ft_atoi (argv ! 2))\<rparr>;
          w3 = w2\<lparr>time_to_eat := int_of_ll (ft_atoi (argv ! 3))\<rparr>;
          w4 = w3\<lparr>time_to_sleep := int_of_ll (ft_atoi (argv ! 4))\<rparr>;
          w5 = (if argc = 6 then w4\<lparr>must_eat_count := int_of_ll (ft_atoi (argv ! 5))\<rparr>
                else w4\<lparr>must_eat_count := - 1\<rparr>)
      in w5\<lparr>end_flag := 0\<rparr>)"

text \<open>What \<^verbatim>\<open>malloc\<close> hands out is not initialised; \<^verbatim>\<open>welcome_philosophers\<close> assigns
  every field of every entry before anything reads it, so the start value is immaterial.\<close>

definition fresh_philo :: t_philo where
  "fresh_philo = \<lparr>philo_id = 0, meal_count = 0, left_fork = 0, right_fork = 0, last_meal = 0\<rparr>"

function welcome_philosophers_loop :: "int \<Rightarrow> world \<Rightarrow> world" where
  "welcome_philosophers_loop i w =
     (if i < philosopher_count w then
        welcome_philosophers_loop (i + 1)
          (w\<lparr>philo := (philo w)[nat i := (philo w ! nat i)
                \<lparr>philo_id := i + 1,
                 left_fork := i,
                 right_fork := c_mod (i + 1) (philosopher_count w),
                 meal_count := 0,
                 last_meal := start_time w\<rparr>]\<rparr>)
      else w)"
  by pat_completeness auto
termination
  by (relation "measure (\<lambda>(i, w). nat (philosopher_count w - i))") auto

declare welcome_philosophers_loop.simps [simp del]

definition welcome_philosophers :: "world \<Rightarrow> outcome" where
  "welcome_philosophers w =
     (if malloc_fails w then
        and_then (ft_putstr_fd 2 ''Couldn't get the philosophers or forks\<newline>'' w)
          (\<lambda>w1. Inl (EXIT_FAILURE, clean_table w1))
      else
        Inr (welcome_philosophers_loop 0
               (w\<lparr>philo := replicate (nat (philosopher_count w)) fresh_philo,
                  start_time := get_current_time w\<rparr>)))"

definition pthread_mutex_init :: "mutex \<Rightarrow> world \<Rightarrow> int \<times> world" where
  "pthread_mutex_init m w =
     (if mutex_init_result w m \<noteq> 0 then (mutex_init_result w m, w)
      else (0, emit (Mutex_init m) w))"

function unset_previous_forks_rules :: "int \<Rightarrow> world \<Rightarrow> world" where
  "unset_previous_forks_rules count w =
     (if count < 0 then w
      else unset_previous_forks_rules (count - 1)
             (pthread_mutex_destroy (Fork_padlock count) w))"
  by pat_completeness auto
termination
  by (relation "measure (\<lambda>(count, w). nat (count + 1))") auto

declare unset_previous_forks_rules.simps [simp del]

function set_forks_rules_loop :: "int \<Rightarrow> world \<Rightarrow> outcome" where
  "set_forks_rules_loop i w =
     (if i < philosopher_count w then
        (case pthread_mutex_init (Fork_padlock i) w of
           (r, w1) \<Rightarrow>
             if r \<noteq> 0 then
               and_then (ft_putstr_fd 2 ''Error initializing fork mutex\<newline>'' w1)
                 (\<lambda>w2. Inl (EXIT_FAILURE,
                    pthread_mutex_destroy End_padlock
                      (pthread_mutex_destroy Eat_padlock
                        (pthread_mutex_destroy Print_padlock
                          (unset_previous_forks_rules (i - 1) w2)))))
             else set_forks_rules_loop (i + 1) w1)
      else Inr w)"
  by pat_completeness auto
termination
  by (relation "measure (\<lambda>(i, w). nat (philosopher_count w - i))")
     (auto simp: pthread_mutex_init_def emit_def split: if_splits)

declare set_forks_rules_loop.simps [simp del]

definition set_forks_rules :: "world \<Rightarrow> outcome" where
  "set_forks_rules w = set_forks_rules_loop 0 w"

definition set_rules :: "world \<Rightarrow> outcome" where
  "set_rules w =
     (case pthread_mutex_init Print_padlock w of
        (r1, w1) \<Rightarrow>
          if r1 \<noteq> 0 then
            and_then (ft_putstr_fd 2 ''Error initializing print_padlock\<newline>'' w1)
              (\<lambda>w2. Inl (EXIT_FAILURE, w2))
          else
            (case pthread_mutex_init Eat_padlock w1 of
               (r2, w2) \<Rightarrow>
                 if r2 \<noteq> 0 then
                   and_then (ft_putstr_fd 2 ''Error initializing print_padlock\<newline>'' w2)
                     (\<lambda>w3. Inl (EXIT_FAILURE, pthread_mutex_destroy Print_padlock w3))
                 else
                   (case pthread_mutex_init End_padlock w2 of
                      (r3, w3) \<Rightarrow>
                        if r3 \<noteq> 0 then
                          and_then (ft_putstr_fd 2 ''Error initializing end_padlock\<newline>'' w3)
                            (\<lambda>w4. Inl (EXIT_FAILURE,
                               pthread_mutex_destroy Eat_padlock
                                 (pthread_mutex_destroy Print_padlock w4)))
                        else set_forks_rules w3)))"

function seat_philosophers_loop :: "int \<Rightarrow> world \<Rightarrow> outcome" where
  "seat_philosophers_loop i w =
     (if i < philosopher_count w then
        (if pthread_create_result w i \<noteq> 0 then
           and_then (ft_putstr_fd 2 ''Couldn't seat the philosophers\<newline>'' w)
             (\<lambda>w1. Inl (EXIT_FAILURE, end_dinner w1))
         else seat_philosophers_loop (i + 1) (emit (Thread_create i) w))
      else Inr w)"
  by pat_completeness auto
termination
  by (relation "measure (\<lambda>(i, w). nat (philosopher_count w - i))") (auto simp: emit_def)

declare seat_philosophers_loop.simps [simp del]

definition seat_philosophers_at_the_table :: "world \<Rightarrow> outcome" where
  "seat_philosophers_at_the_table w = seat_philosophers_loop 0 w"

text \<open>The last two statements of \<^verbatim>\<open>main\<close>: run the monitor, return \<^verbatim>\<open>EXIT_SUCCESS\<close>.
  \<open>None\<close>: the monitor is still looping when its passes run out.\<close>

definition main_monitor :: "nat \<Rightarrow> world \<Rightarrow> (int \<times> world) option" where
  "main_monitor n w =
     (case dinner_monitor n w of
        (returned, w1) \<Rightarrow> if returned then Some (EXIT_SUCCESS, w1) else None)"

definition main :: "nat \<Rightarrow> int \<Rightarrow> string list \<Rightarrow> world \<Rightarrow> (int \<times> world) option" where
  "main n argc argv w =
     (case receive_guests argc argv w of
        Inl e \<Rightarrow> Some e
      | Inr w1 \<Rightarrow>
          (case welcome_philosophers (set_table argc argv w1) of
             Inl e \<Rightarrow> Some e
           | Inr w2 \<Rightarrow>
               (case set_rules w2 of
                  Inl e \<Rightarrow> Some e
                | Inr w3 \<Rightarrow>
                    (case seat_philosophers_at_the_table w3 of
                       Inl e \<Rightarrow> Some e
                     | Inr w4 \<Rightarrow> main_monitor n w4))))"

section \<open>Reading a run: new events, printed lines, locks held\<close>

definition new_events :: "world \<Rightarrow> world \<Rightarrow> event list" where
  "new_events w w' = drop (length (events w)) (events w')"

fun is_printf :: "event \<Rightarrow> bool" where
  "is_printf (Printf_line t i a) = True"
| "is_printf (Printf_msg s) = True"
| "is_printf e = False"

fun is_fork :: "mutex \<Rightarrow> bool" where
  "is_fork (Fork_padlock k) = True"
| "is_fork m = False"

fun is_fork_lock :: "event \<Rightarrow> bool" where
  "is_fork_lock (Lock m) = is_fork m"
| "is_fork_lock e = False"

fun is_fork_unlock :: "event \<Rightarrow> bool" where
  "is_fork_unlock (Unlock m) = is_fork m"
| "is_fork_unlock e = False"

text \<open>The mutexes a thread holds after an event, most recent first.\<close>

fun held_step :: "mutex list \<Rightarrow> event \<Rightarrow> mutex list" where
  "held_step h (Lock m) = m # h"
| "held_step h (Unlock m) = remove1 m h"
| "held_step h e = h"

definition held_after :: "mutex list \<Rightarrow> event list \<Rightarrow> mutex list" where
  "held_after h tr = foldl held_step h tr"

text \<open>The exclusion as the specification words it: neither the output lock nor the
  termination-flag lock together with a utensil lock, nor the two together.\<close>

definition exclusive :: "mutex list \<Rightarrow> bool" where
  "exclusive h =
     (\<not> ((Print_padlock \<in> set h \<or> End_padlock \<in> set h) \<and> list_ex is_fork h)
      \<and> \<not> (Print_padlock \<in> set h \<and> End_padlock \<in> set h))"

fun always_exclusive :: "mutex list \<Rightarrow> event list \<Rightarrow> bool" where
  "always_exclusive h [] = exclusive h"
| "always_exclusive h (e # es) = (exclusive h \<and> always_exclusive (held_step h e) es)"

text \<open>The nesting the code keeps: utensils, then meal bookkeeping, then output, then the
  termination flag. A lock may be requested only while every lock already held comes
  earlier in that order (a second utensil may follow the first).\<close>

fun rank :: "mutex \<Rightarrow> nat" where
  "rank (Fork_padlock k) = 0"
| "rank Eat_padlock = 1"
| "rank Print_padlock = 2"
| "rank End_padlock = 3"

definition may_lock :: "mutex list \<Rightarrow> mutex \<Rightarrow> bool" where
  "may_lock h m = list_all (\<lambda>x. rank x < rank m \<or> (is_fork x \<and> is_fork m)) h"

fun nested_locking :: "mutex list \<Rightarrow> event list \<Rightarrow> bool" where
  "nested_locking h [] = True"
| "nested_locking h (Lock m # es) = (may_lock h m \<and> nested_locking (m # h) es)"
| "nested_locking h (Unlock m # es) = (m \<in> set h \<and> nested_locking (remove1 m h) es)"
| "nested_locking h (e # es) = nested_locking h es"

text \<open>A stretch of events is tidy when, started with no lock held, it keeps the nesting
  and ends with no lock held; a function grows the events tidily when it appends such a
  stretch.\<close>

definition tidy :: "event list \<Rightarrow> bool" where
  "tidy tr = (nested_locking [] tr \<and> held_after [] tr = [])"

definition grows_tidily :: "world \<Rightarrow> world \<Rightarrow> bool" where
  "grows_tidily w w' = (\<exists>tr. events w' = events w @ tr \<and> tidy tr)"



text \<open>From \<open>w\<close> to \<open>w'\<close> nothing has happened but calls of \<^verbatim>\<open>write\<close> on standard
  error: the events have grown by such writes, answers of \<^verbatim>\<open>write\<close> have been used,
  and nothing else of the world has changed. A process that is refused at start-up has
  done no more than that and has left with \<^verbatim>\<open>EXIT_FAILURE\<close>.\<close>

fun is_stderr :: "event \<Rightarrow> bool" where
  "is_stderr (Write_fd fd s) = (fd = 2)"
| "is_stderr e = False"

definition stderr_only :: "world \<Rightarrow> world \<Rightarrow> bool" where
  "stderr_only w w' =
     (w' = w\<lparr>events := events w', write_answers := write_answers w'\<rparr>
      \<and> take (length (events w)) (events w') = events w
      \<and> list_all is_stderr (new_events w w'))"

definition refused :: "world \<Rightarrow> int \<times> world \<Rightarrow> bool" where
  "refused w e = (fst e = EXIT_FAILURE \<and> EXIT_FAILURE \<noteq> 0 \<and> stderr_only w (snd e))"


text \<open>The value a digit string denotes, over the unbounded integers.\<close>

definition is_digit :: "char \<Rightarrow> bool" where
  "is_digit c = (48 \<le> (of_char c :: int) \<and> (of_char c :: int) \<le> 57)"

definition denoted :: "string \<Rightarrow> int" where
  "denoted s = foldl (\<lambda>n c. n * 10 + (of_char c - 48)) 0 s"

section \<open>What the functions add to the events\<close>

text \<open>The stretches of events by which the proofs describe the functions: each of them is
  proved to be what the function of the source appends.\<close>

text \<open>The lock requests of \<open>k\<close> readings of the end flag.\<close>

definition polls :: "nat \<Rightarrow> event list" where
  "polls k = concat (replicate k [Lock End_padlock, Unlock End_padlock])"

text \<open>What one call of \<^verbatim>\<open>print_action\<close> adds to the events, and the two lock requests
  that open \<^verbatim>\<open>dinner_time\<close>.\<close>

definition print_events :: "nat \<Rightarrow> string \<Rightarrow> world \<Rightarrow> event list" where
  "print_events p action w =
     [Lock Print_padlock, Lock End_padlock, Unlock End_padlock]
     @ (if end_flag w = 0
        then [Printf_line (get_current_time w - start_time w) (philo_id (philo w ! p)) action]
        else [])
     @ [Unlock Print_padlock]
     @ (if first_char action = CHR ''e'' then [Printf_msg END_MSG] else [])"

definition acquire_events :: "nat \<Rightarrow> world \<Rightarrow> event list" where
  "acquire_events p w =
     (if even (philo_id (philo w ! p))
      then [Lock (Fork_padlock (left_fork (philo w ! p))),
            Lock (Fork_padlock (right_fork (philo w ! p)))]
      else [Lock (Fork_padlock (right_fork (philo w ! p))),
            Lock (Fork_padlock (left_fork (philo w ! p)))])"

text \<open>What \<^verbatim>\<open>end_dinner\<close> adds to the events.\<close>

definition teardown_events :: "world \<Rightarrow> event list" where
  "teardown_events w =
     map Thread_join [0..philosopher_count w - 1]
     @ map (\<lambda>j. Mutex_destroy (Fork_padlock j)) [0..philosopher_count w - 1]
     @ [Mutex_destroy Print_padlock, Mutex_destroy Eat_padlock, Mutex_destroy End_padlock,
        Free_philo, Free_fork_padlock]"



text \<open>The two tests of \<^verbatim>\<open>is_someone_dead_or_full\<close> on philosopher \<open>p\<close>.\<close>

definition starved :: "nat \<Rightarrow> world \<Rightarrow> bool" where
  "starved p w = (get_current_time w - last_meal (philo w ! p) \<ge> time_to_die w)"

definition satisfied :: "nat \<Rightarrow> world \<Rightarrow> bool" where
  "satisfied p w = (must_eat_count w > 0 \<and> meal_count (philo w ! p) \<ge> must_eat_count w)"




section \<open>Concrete worlds\<close>

text \<open>The world in which \<^verbatim>\<open>main\<close> starts: nothing written yet, the clock at 5 seconds,
  and an operating system that refuses nothing.\<close>

definition boot :: world where
  "boot = \<lparr>philosopher_count = 0, time_to_die = 0, time_to_eat = 0, time_to_sleep = 0,
            start_time = 0, must_eat_count = 0, meal_count_table = 0, is_full = 0,
            end_flag = 0, philo = [],
            usec = 5000000, events = [], malloc_fails = False,
            mutex_init_result = (\<lambda>m. 0), pthread_create_result = (\<lambda>i. 0),
            write_answers = []\<rparr>"

text \<open>The table of \<^verbatim>\<open>./philo 1 800 200 200\<close> as \<^verbatim>\<open>welcome_philosophers\<close> leaves it: one
  philosopher, whose left and right fork are the same fork 0.\<close>

definition table1 :: world where
  "table1 = boot\<lparr>philosopher_count := 1, time_to_die := 800, time_to_eat := 200,
              time_to_sleep := 200, must_eat_count := - 1, end_flag := 0,
              start_time := 5000,
              philo := [\<lparr>philo_id = 1, meal_count = 0, left_fork = 0, right_fork = 0,
                         last_meal = 5000\<rparr>]\<rparr>"

text \<open>Two philosophers (ids 1 and 2) at a table set for \<^verbatim>\<open>2 800 1 1\<close>, as
  \<^verbatim>\<open>welcome_philosophers\<close> leaves them, at the moment the simulation starts.\<close>

definition table2 :: world where
  "table2 = \<lparr>philosopher_count = 2, time_to_die = 800, time_to_eat = 1, time_to_sleep = 1,
              start_time = 5000, must_eat_count = - 1, meal_count_table = 0, is_full = 0,
              end_flag = 0,
              philo = [\<lparr>philo_id = 1, meal_count = 0, left_fork = 0, right_fork = 1,
                        last_meal = 5000\<rparr>,
                       \<lparr>philo_id = 2, meal_count = 0, left_fork = 1, right_fork = 0,
                        last_meal = 5000\<rparr>],
              usec = 5000000, events = [], malloc_fails = False,
              mutex_init_result = (\<lambda>m. 0), pthread_create_result = (\<lambda>i. 0),
              write_answers = []\<rparr>"

text \<open>The same table with a quota of one meal, after both philosophers have eaten once:
  \<open>fed2\<close> one millisecond after the meals, with philosopher 1 already counted in the
  current pass; \<open>starving2\<close> at the moment philosopher 2 has just booked its first meal,
  800 milliseconds after the last meal of philosopher 1.\<close>

definition fed2 :: world where
  "fed2 = table2\<lparr>must_eat_count := 1, is_full := 1,
            philo := [\<lparr>philo_id = 1, meal_count = 1, left_fork = 0, right_fork = 1,
                       last_meal = 5001\<rparr>,
                      \<lparr>philo_id = 2, meal_count = 1, left_fork = 1, right_fork = 0,
                       last_meal = 5001\<rparr>],
            usec := 5002000\<rparr>"

definition starving2 :: world where
  "starving2 = table2\<lparr>must_eat_count := 1,
            philo := [\<lparr>philo_id = 1, meal_count = 1, left_fork = 0, right_fork = 1,
                       last_meal = 5001\<rparr>,
                      \<lparr>philo_id = 2, meal_count = 1, left_fork = 1, right_fork = 0,
                       last_meal = 5801\<rparr>],
            usec := 5801000\<rparr>"


section \<open>Argument validation: proofs\<close>

lemma c_char_digit: "is_digit c \<Longrightarrow> c_char c = of_char c"
  by (auto simp: is_digit_def c_char_def)

lemma c_char_zero: "c_char CHR ''0'' = 48" "c_char CHR ''9'' = 57"
  by (simp_all add: c_char_def)

lemma is_digit_not_nul: "is_digit c \<Longrightarrow> c \<noteq> CHR 0x00"
  by (auto simp: is_digit_def)

lemma cutoff_vals: "c_div INT_MAX 10 = 214748364" "c_mod INT_MAX 10 = 7"
  by (simp_all add: c_div_def c_mod_def INT_MAX_def)

lemma ll_id: "- (2 ^ 63) \<le> x \<Longrightarrow> x < 2 ^ 63 \<Longrightarrow> ll x = x"
  by (simp add: ll_def mod_pos_pos_trivial)

lemma ft_check_overflow_digit:
  assumes "is_digit c" "0 \<le> num"
  shows "ft_check_overflow num c \<longleftrightarrow> num * 10 + (of_char c - 48) > INT_MAX"
  using assms unfolding ft_check_overflow_def cutoff_vals Let_def
  by (auto simp: c_char_digit c_char_zero is_digit_def INT_MAX_def)

lemma foldl_digit_mono:
  "\<forall>c\<in>set s. is_digit c \<Longrightarrow> 0 \<le> n \<Longrightarrow> (n::int) \<le> foldl (\<lambda>n c. n * 10 + (of_char c - 48)) n s"
proof (induction s arbitrary: n)
  case Nil
  then show ?case by simp
next
  case (Cons c s)
  have d: "is_digit c" using Cons.prems by simp
  then have "n \<le> n * 10 + (of_char c - 48)"
    using Cons.prems(2) by (auto simp: is_digit_def)
  moreover have "n * 10 + (of_char c - 48) \<le> foldl (\<lambda>n c. n * 10 + (of_char c - 48)) (n * 10 + (of_char c - 48)) s"
    using Cons.prems calculation by (intro Cons.IH) auto
  ultimately show ?case by simp
qed

lemma ft_atoi_loop_digits:
  "\<forall>c\<in>set s. is_digit c \<Longrightarrow> 0 \<le> num \<Longrightarrow> num \<le> INT_MAX \<Longrightarrow>
   ft_atoi_loop num s =
     (if foldl (\<lambda>n c. n * 10 + (of_char c - 48)) num s > INT_MAX then - 1
      else foldl (\<lambda>n c. n * 10 + (of_char c - 48)) num s)"
proof (induction s arbitrary: num)
  case Nil
  then show ?case by simp
next
  case (Cons c s)
  let ?f = "\<lambda>n c. n * 10 + (of_char c - 48)"
  let ?n = "num * 10 + (of_char c - 48)"
  have d: "is_digit c" and ds: "\<forall>c\<in>set s. is_digit c" using Cons.prems by simp_all
  have nn: "0 \<le> ?n" using d Cons.prems(2) by (auto simp: is_digit_def)
  show ?case
  proof (cases "?n > INT_MAX")
    case True
    have "?n \<le> foldl ?f ?n s" using ds nn by (rule foldl_digit_mono)
    with True have "foldl ?f ?n s > INT_MAX" by linarith
    with True d Cons.prems(2) show ?thesis
      by (simp add: is_digit_not_nul ft_check_overflow_digit)
  next
    case False
    have r1: "ll (num * 10) = num * 10"
      using Cons.prems(2,3) by (intro ll_id) (auto simp: INT_MAX_def)
    have r2: "ll ?n = ?n"
      using nn False by (intro ll_id) (auto simp: INT_MAX_def)
    have "ft_atoi_loop ?n s = (if foldl ?f ?n s > INT_MAX then - 1 else foldl ?f ?n s)"
      using ds nn False by (intro Cons.IH) auto
    with False d Cons.prems(2) show ?thesis
      by (simp add: is_digit_not_nul ft_check_overflow_digit c_char_digit c_char_zero r1 r2)
  qed
qed

lemma ft_atoi_digits:
  "\<forall>c\<in>set s. is_digit c \<Longrightarrow>
   ft_atoi s = (if denoted s > INT_MAX then - 1 else denoted s)"
  unfolding ft_atoi_def denoted_def
  by (rule ft_atoi_loop_digits) (simp_all add: INT_MAX_def)


section \<open>Writing to a descriptor: proofs\<close>

lemma stderr_only_refl: "stderr_only w w"
  by (simp add: stderr_only_def new_events_def)

lemma stderr_only_iff:
  "stderr_only w w' \<longleftrightarrow>
     (\<exists>tr ans. w' = w\<lparr>events := events w @ tr, write_answers := ans\<rparr> \<and> list_all is_stderr tr)"
proof
  assume h: "stderr_only w w'"
  have "events w' = events w @ new_events w w'"
    using h unfolding stderr_only_def new_events_def by (metis append_take_drop_id)
  then show "\<exists>tr ans. w' = w\<lparr>events := events w @ tr, write_answers := ans\<rparr> \<and> list_all is_stderr tr"
    using h unfolding stderr_only_def by metis
next
  assume "\<exists>tr ans. w' = w\<lparr>events := events w @ tr, write_answers := ans\<rparr> \<and> list_all is_stderr tr"
  then show "stderr_only w w'" by (auto simp: stderr_only_def new_events_def)
qed

lemma stderr_only_trans: "stderr_only a b \<Longrightarrow> stderr_only b c \<Longrightarrow> stderr_only a c"
  unfolding stderr_only_iff by (elim exE conjE) (simp, metis append_assoc list_all_append)

lemma c_write_stderr: "c_write 2 buf n w = (a, w1) \<Longrightarrow> stderr_only w w1"
  by (auto simp: c_write_def emit_def stderr_only_def new_events_def
      split: list.splits write_answer.splits)

text \<open>Whatever \<^verbatim>\<open>write\<close> answers, \<^verbatim>\<open>ft_putstr_fd\<close> on standard error changes nothing but
  what is written there, and when it leaves the process it does so with
  \<^verbatim>\<open>EXIT_FAILURE\<close>.\<close>

lemma ft_putstr_fd_loop_stderr:
  "fd = 2 \<Longrightarrow>
   (ft_putstr_fd_loop fd str t len w = Inr w' \<longrightarrow> stderr_only w w') \<and>
   (ft_putstr_fd_loop fd str t len w = Inl e \<longrightarrow> refused w e)"
proof (induction fd str t len w rule: ft_putstr_fd_loop.induct)
  case (1 fd str t len w)
  show ?case
  proof (cases "t < len")
    case False
    then show ?thesis
      by (subst (1 2) ft_putstr_fd_loop.simps) (simp add: stderr_only_refl)
  next
    case True
    obtain a w1 where c: "c_write fd (drop t str) (len - t) w = (a, w1)" by force
    have s: "stderr_only w w1" using c "1.prems" by (auto intro: c_write_stderr)
    show ?thesis
    proof (cases a)
      case (Written n)
      from "1.IH"(1) [OF True c [symmetric] Written "1.prems"]
      show ?thesis
        using True c Written s
        by (subst (1 2) ft_putstr_fd_loop.simps)
           (auto simp: refused_def intro: stderr_only_trans)
    next
      case Interrupted
      from "1.IH"(2) [OF True c [symmetric] Interrupted "1.prems"]
      show ?thesis
        using True c Interrupted s
        by (subst (1 2) ft_putstr_fd_loop.simps)
           (auto simp: refused_def intro: stderr_only_trans)
    next
      case Write_error
      show ?thesis
        using True c Write_error s
        by (subst (1 2) ft_putstr_fd_loop.simps)
           (auto simp: refused_def EXIT_FAILURE_def)
    qed
  qed
qed

lemma ft_putstr_fd_Inr: "ft_putstr_fd 2 str w = Inr w' \<Longrightarrow> stderr_only w w'"
  unfolding ft_putstr_fd_def using ft_putstr_fd_loop_stderr [of 2] by blast

lemma ft_putstr_fd_Inl: "ft_putstr_fd 2 str w = Inl e \<Longrightarrow> refused w e"
  unfolding ft_putstr_fd_def using ft_putstr_fd_loop_stderr [of 2] by blast

lemma ft_strlen_length: "CHR 0x00 \<notin> set str \<Longrightarrow> ft_strlen str = length str"
  by (induction str) auto

text \<open>When \<^verbatim>\<open>write\<close> makes no trouble, a string without a NUL goes out in one piece.\<close>

lemma ft_putstr_fd_plain:
  assumes "write_answers w = []" "CHR 0x00 \<notin> set str" "str \<noteq> []"
  shows "ft_putstr_fd fd str w = Inr (emit (Write_fd fd str) w)"
proof -
  have l: "ft_strlen str = length str" "0 < length str"
    using assms by (simp_all add: ft_strlen_length)
  have "ft_putstr_fd_loop fd str (length str) (length str) (emit (Write_fd fd str) w)
        = Inr (emit (Write_fd fd str) w)"
    by (subst ft_putstr_fd_loop.simps) simp
  then show ?thesis
    unfolding ft_putstr_fd_def l
    using assms(1) l(2) by (subst ft_putstr_fd_loop.simps) (simp add: c_write_def)
qed

lemma putstr_plain_then:
  "write_answers w = [] \<Longrightarrow> CHR 0x00 \<notin> set str \<Longrightarrow> str \<noteq> [] \<Longrightarrow>
   and_then (ft_putstr_fd fd str w) f = f (emit (Write_fd fd str) w)"
  by (simp add: ft_putstr_fd_plain and_then_def)

lemma write_answers_emit: "write_answers (emit e w) = write_answers w"
  by (simp add: emit_def)

text \<open>A message and then \<^verbatim>\<open>exit(EXIT_FAILURE)\<close>, or a message and then more of the
  same: the process is refused either way.\<close>

lemma exit_refused: "stderr_only w w2 \<Longrightarrow> \<exists>e. Inl (EXIT_FAILURE, w2) = Inl e \<and> refused w e"
  by (simp add: refused_def EXIT_FAILURE_def)

lemma putstr_then_refused:
  assumes "stderr_only w w1"
    and "\<And>w2. stderr_only w w2 \<Longrightarrow> \<exists>e. f w2 = Inl e \<and> refused w e"
  shows "\<exists>e. and_then (ft_putstr_fd 2 s w1) f = Inl e \<and> refused w e"
proof (cases "ft_putstr_fd 2 s w1")
  case (Inl e)
  then have "refused w1 e" by (rule ft_putstr_fd_Inl)
  then have "refused w e"
    using assms(1) unfolding refused_def by (auto intro: stderr_only_trans)
  then show ?thesis using Inl by (simp add: and_then_def)
next
  case (Inr w2)
  then have "stderr_only w1 w2" by (rule ft_putstr_fd_Inr)
  then have "stderr_only w w2" using assms(1) by (auto intro: stderr_only_trans)
  from assms(2) [OF this] show ?thesis using Inr by (simp add: and_then_def)
qed

lemma one_message_refused:
  "\<exists>e. and_then (ft_putstr_fd 2 a w) (\<lambda>w1. Inl (EXIT_FAILURE, w1)) = Inl e \<and> refused w e"
  by (rule putstr_then_refused exit_refused stderr_only_refl | assumption)+

lemma two_messages_refused:
  "\<exists>e. and_then (ft_putstr_fd 2 a w)
          (\<lambda>w1. and_then (ft_putstr_fd 2 b w1) (\<lambda>w2. Inl (EXIT_FAILURE, w2))) = Inl e
        \<and> refused w e"
  by (rule putstr_then_refused exit_refused stderr_only_refl | assumption)+

lemma three_messages_refused:
  "\<exists>e. and_then (ft_putstr_fd 2 a w)
          (\<lambda>w1. and_then (ft_putstr_fd 2 b w1)
          (\<lambda>w2. and_then (ft_putstr_fd 2 c w2) (\<lambda>w3. Inl (EXIT_FAILURE, w3)))) = Inl e
        \<and> refused w e"
  by (rule putstr_then_refused exit_refused stderr_only_refl | assumption)+

lemma five_messages_refused:
  "\<exists>e. and_then (ft_putstr_fd 2 a w)
          (\<lambda>w1. and_then (ft_putstr_fd 2 b w1)
          (\<lambda>w2. and_then (ft_putstr_fd 2 c w2)
          (\<lambda>w3. and_then (ft_putstr_fd 2 d w3)
          (\<lambda>w4. and_then (ft_putstr_fd 2 m w4) (\<lambda>w5. Inl (EXIT_FAILURE, w5)))))) = Inl e
        \<and> refused w e"
  by (rule putstr_then_refused exit_refused stderr_only_refl | assumption)+

section \<open>Argument validation: proofs\<close>

lemma check_syntax_cases:
  "check_syntax s w = Inr w \<or> (\<exists>e. check_syntax s w = Inl e \<and> refused w e)"
  by (induction s) (simp_all add: two_messages_refused del: split_paired_Ex)

lemma check_syntax_plain:
  "write_answers w = [] \<Longrightarrow> check_syntax s w = Inl e \<Longrightarrow> new_events w (snd e) \<noteq> []"
  by (induction s)
     (auto simp: putstr_plain_then write_answers_emit emit_def new_events_def
       split: if_splits)

lemma check_syntax_refused:
  "check_syntax s w = Inl e \<Longrightarrow>
   refused w e \<and> (write_answers w = [] \<longrightarrow> new_events w (snd e) \<noteq> [])"
  using check_syntax_cases [of s w] check_syntax_plain [of w s e] by auto

lemma check_syntax_Inr: "check_syntax s w = Inr w' \<Longrightarrow> w' = w"
  using check_syntax_cases [of s w] by auto

lemma check_syntax_digits: "\<forall>c\<in>set s. is_digit c \<Longrightarrow> check_syntax s w = Inr w"
  by (induction s) (auto simp: c_char_digit c_char_zero is_digit_def)

lemma check_value_cases:
  "check_value v i w = Inr w \<or> (\<exists>e. check_value v i w = Inl e \<and> refused w e)"
  by (simp add: check_value_def one_message_refused two_messages_refused
      three_messages_refused del: split_paired_Ex)

lemma check_value_plain:
  "write_answers w = [] \<Longrightarrow> check_value v i w = Inl e \<Longrightarrow> new_events w (snd e) \<noteq> []"
  by (auto simp: check_value_def putstr_plain_then write_answers_emit emit_def new_events_def
      split: if_splits)

lemma check_value_refused:
  "check_value v i w = Inl e \<Longrightarrow>
   refused w e \<and> (write_answers w = [] \<longrightarrow> new_events w (snd e) \<noteq> [])"
  using check_value_cases [of v i w] check_value_plain [of w v i e] by auto

lemma check_value_Inr: "check_value v i w = Inr w' \<Longrightarrow> w' = w"
  using check_value_cases [of v i w] by auto

lemma validate_argument_count_cases:
  "validate_argument_count argc w = Inr w \<or>
   (\<exists>e. validate_argument_count argc w = Inl e \<and> refused w e)"
  by (simp add: validate_argument_count_def five_messages_refused del: split_paired_Ex)

lemma validate_argument_count_plain:
  "write_answers w = [] \<Longrightarrow> validate_argument_count argc w = Inl e \<Longrightarrow>
   new_events w (snd e) \<noteq> []"
  by (auto simp: validate_argument_count_def putstr_plain_then write_answers_emit emit_def
      new_events_def split: if_splits)

lemma validate_argument_count_refused:
  "validate_argument_count argc w = Inl e \<Longrightarrow>
   refused w e \<and> (write_answers w = [] \<longrightarrow> new_events w (snd e) \<noteq> [])"
  using validate_argument_count_cases [of argc w] validate_argument_count_plain [of w argc e]
  by auto

lemma validate_argument_count_Inr: "validate_argument_count argc w = Inr w' \<Longrightarrow> w' = w"
  using validate_argument_count_cases [of argc w] by auto

lemma validate_arguments_loop_shape:
  "(validate_arguments_loop i argc argv w = Inr w' \<longrightarrow> w' = w) \<and>
   (validate_arguments_loop i argc argv w = Inl e \<longrightarrow>
      refused w e \<and> (write_answers w = [] \<longrightarrow> new_events w (snd e) \<noteq> []))"
proof (induction i argc argv w rule: validate_arguments_loop.induct)
  case (1 i argc argv w)
  show ?case
  proof (cases "i < argc")
    case False
    then show ?thesis by simp
  next
    case True
    show ?thesis
    proof (cases "check_syntax (argv ! nat i) w")
      case (Inl a)
      with True show ?thesis using check_syntax_refused [of "argv ! nat i" w a] by auto
    next
      case (Inr w1)
      then have w1: "w1 = w" by (rule check_syntax_Inr)
      show ?thesis
      proof (cases "check_value (ft_atoi (argv ! nat i)) i w1")
        case (Inl a)
        with True Inr w1 show ?thesis
          using check_value_refused [of "ft_atoi (argv ! nat i)" i w a] by auto
      next
        case (Inr w2)
        then have w2: "w2 = w" using w1 by (simp add: check_value_Inr)
        from "1.IH" [OF True \<open>check_syntax (argv ! nat i) w = Inr w1\<close> Inr]
        show ?thesis using True \<open>check_syntax (argv ! nat i) w = Inr w1\<close> Inr w2 by simp
      qed
    qed
  qed
qed

lemma validate_arguments_loop_bad:
  assumes "i \<le> k" "k < argc"
    and "check_syntax (argv ! nat k) w \<noteq> Inr w \<or> check_value (ft_atoi (argv ! nat k)) k w \<noteq> Inr w"
  shows "\<exists>e. validate_arguments_loop i argc argv w = Inl e"
  using assms
proof (induction i argc argv w rule: validate_arguments_loop.induct)
  case (1 i argc argv w)
  have lt: "i < argc" using "1.prems" by simp
  show ?case
  proof (cases "check_syntax (argv ! nat i) w")
    case (Inl a)
    with lt show ?thesis by simp
  next
    case (Inr w1)
    then have w1: "w1 = w" by (rule check_syntax_Inr)
    show ?thesis
    proof (cases "check_value (ft_atoi (argv ! nat i)) i w1")
      case (Inl a)
      with lt Inr show ?thesis by simp
    next
      case Inr2: (Inr w2)
      then have w2: "w2 = w" using w1 by (simp add: check_value_Inr)
      have "i \<noteq> k" using "1.prems"(3) Inr Inr2 w1 w2 by auto
      then have "i + 1 \<le> k" using "1.prems"(1) by simp
      from "1.IH" [OF lt Inr Inr2 this "1.prems"(2)] "1.prems"(3) w2
      show ?thesis using lt Inr Inr2 by simp
    qed
  qed
qed

lemma receive_guests_shape:
  "(receive_guests argc argv w = Inr w' \<longrightarrow> w' = w) \<and>
   (receive_guests argc argv w = Inl e \<longrightarrow>
      refused w e \<and> (write_answers w = [] \<longrightarrow> new_events w (snd e) \<noteq> []))"
proof (cases "validate_argument_count argc w")
  case (Inl a)
  then show ?thesis
    using validate_argument_count_refused [of argc w a] by (auto simp: receive_guests_def)
next
  case (Inr w1)
  then have "w1 = w" by (rule validate_argument_count_Inr)
  then show ?thesis
    using Inr validate_arguments_loop_shape [of 1 argc argv w w' e]
    by (simp add: receive_guests_def validate_arguments_def)
qed

lemma receive_guests_bad:
  assumes "1 \<le> k" "k < argc"
    and "check_syntax (argv ! nat k) w \<noteq> Inr w \<or> check_value (ft_atoi (argv ! nat k)) k w \<noteq> Inr w"
  shows "\<exists>e. receive_guests argc argv w = Inl e \<and> refused w e
            \<and> (write_answers w = [] \<longrightarrow> new_events w (snd e) \<noteq> [])"
proof -
  have "\<exists>e. receive_guests argc argv w = Inl e"
  proof (cases "validate_argument_count argc w")
    case (Inl a)
    then show ?thesis by (simp add: receive_guests_def)
  next
    case (Inr w1)
    then have "w1 = w" by (rule validate_argument_count_Inr)
    then show ?thesis
      using Inr validate_arguments_loop_bad [OF assms]
      by (simp add: receive_guests_def validate_arguments_def)
  qed
  then show ?thesis using receive_guests_shape by blast
qed

lemma main_refused:
  "receive_guests argc argv w = Inl e \<Longrightarrow> main n argc argv w = Some e"
  by (simp add: main_def)


lemma denoted_nonneg: "\<forall>c\<in>set s. is_digit c \<Longrightarrow> 0 \<le> denoted s"
  unfolding denoted_def by (rule foldl_digit_mono) simp_all

text \<open>
  Claim C7. For a string of decimal digits \<^verbatim>\<open>ft_atoi\<close> returns \<open>-1\<close> exactly when the
  denoted value exceeds \<^verbatim>\<open>INT_MAX\<close>, and the denoted value otherwise. \<^verbatim>\<open>check_value\<close>
  answers \<open>-1\<close> at every position by writing the overflow message to standard error and
  calling \<^verbatim>\<open>exit(EXIT_FAILURE)\<close>: whatever \<^verbatim>\<open>write\<close> answers, the process ends there
  with that status, and when \<^verbatim>\<open>write\<close> makes no trouble the message is what has been
  written. A command line with such an argument makes \<^verbatim>\<open>main\<close> leave with
  \<^verbatim>\<open>EXIT_FAILURE\<close> after writing to standard error only (and after writing something,
  when \<^verbatim>\<open>write\<close> makes no trouble): no field of the table is set, nothing is allocated,
  no mutex is initialised and no thread is created.
\<close>

theorem ft_atoi_overflow_rejected:
  assumes "\<forall>c\<in>set s. is_digit c"
  shows "ft_atoi s = (if INT_MAX < denoted s then - 1 else denoted s)
       \<and> (ft_atoi s = - 1 \<longleftrightarrow> INT_MAX < denoted s)
       \<and> check_value (- 1) i w =
           and_then (ft_putstr_fd 2 ''Error: integer overflow detected\<newline>'' w)
             (\<lambda>w1. Inl (EXIT_FAILURE, w1))
       \<and> (\<exists>e. check_value (- 1) i w = Inl e \<and> refused w e)
       \<and> (write_answers w = [] \<longrightarrow>
            check_value (- 1) i w =
              Inl (EXIT_FAILURE, emit (Write_fd 2 ''Error: integer overflow detected\<newline>'') w))
       \<and> EXIT_FAILURE \<noteq> 0
       \<and> (INT_MAX < denoted s \<and> 1 \<le> k \<and> k < argc \<and> argv ! nat k = s \<longrightarrow>
            (\<exists>e. main n argc argv w = Some e \<and> refused w e
                 \<and> (write_answers w = [] \<longrightarrow> new_events w (snd e) \<noteq> [])))"
proof -
  have a: "ft_atoi s = (if INT_MAX < denoted s then - 1 else denoted s)"
    using assms by (rule ft_atoi_digits)
  have b: "ft_atoi s = - 1 \<longleftrightarrow> INT_MAX < denoted s"
    using a denoted_nonneg [OF assms] by auto
  have c: "check_value (- 1) i w =
           and_then (ft_putstr_fd 2 ''Error: integer overflow detected\<newline>'' w)
             (\<lambda>w1. Inl (EXIT_FAILURE, w1))"
    by (simp add: check_value_def)
  have c1: "\<exists>e. check_value (- 1) j w = Inl e \<and> refused w e" for j
    by (simp add: check_value_def one_message_refused del: split_paired_Ex)
  have c2: "check_value (- 1) i w =
              Inl (EXIT_FAILURE, emit (Write_fd 2 ''Error: integer overflow detected\<newline>'') w)"
    if "write_answers w = []"
    unfolding c using that by (simp add: ft_putstr_fd_plain and_then_def)
  have d: "\<exists>e. main n argc argv w = Some e \<and> refused w e
                 \<and> (write_answers w = [] \<longrightarrow> new_events w (snd e) \<noteq> [])"
    if h: "INT_MAX < denoted s" "1 \<le> k" "k < argc" "argv ! nat k = s"
  proof -
    have "check_value (ft_atoi (argv ! nat k)) k w \<noteq> Inr w"
      using h b c1 [of k] by auto
    then obtain e where "receive_guests argc argv w = Inl e" "refused w e"
      "write_answers w = [] \<longrightarrow> new_events w (snd e) \<noteq> []"
      using receive_guests_bad [OF h(2,3)] by blast
    then show ?thesis by (auto simp: main_refused)
  qed
  show ?thesis using a b c c1 [of i] c2 d by (simp add: EXIT_FAILURE_def)
qed

text \<open>The theorem at \<open>2147483648\<close> (one above \<^verbatim>\<open>INT_MAX\<close>, refused) and at
  \<open>2147483647\<close> (converted exactly).\<close>

theorem ft_atoi_overflow_rejected_witness:
  "list_all is_digit ''2147483648''
   \<and> ft_atoi ''2147483648'' = - 1
   \<and> ft_atoi ''2147483647'' = 2147483647
   \<and> check_value (- 1) 1 boot =
       Inl (EXIT_FAILURE, boot\<lparr>events := [Write_fd 2 ''Error: integer overflow detected\<newline>'']\<rparr>)
   \<and> (\<exists>e. main 0 5 [''philo'', ''2147483648'', ''800'', ''200'', ''200''] boot = Some e
          \<and> refused boot e \<and> new_events boot (snd e) \<noteq> [])"
proof -
  have d1: "\<forall>c\<in>set ''2147483648''. is_digit c" by (simp add: is_digit_def)
  have d2: "\<forall>c\<in>set ''2147483647''. is_digit c" by (simp add: is_digit_def)
  have v1: "INT_MAX < denoted ''2147483648''" by (simp add: denoted_def INT_MAX_def)
  have v2: "denoted ''2147483647'' = 2147483647" by (simp add: denoted_def)
  have ev: "events boot = []" "write_answers boot = []" by (simp_all add: boot_def)
  from ft_atoi_overflow_rejected [OF d1, of 1 boot 1 5
      "[''philo'', ''2147483648'', ''800'', ''200'', ''200'']" 0]
    ft_atoi_overflow_rejected [OF d2, of 1 boot 1 5 "[]" 0] d1 v1 v2
  show ?thesis by (simp add: INT_MAX_def is_digit_def ev emit_def)
qed

text \<open>
  Claim C10. An empty argument passes \<^verbatim>\<open>check_syntax\<close>, which refuses only strings
  that contain a character other than a digit; \<^verbatim>\<open>ft_atoi\<close> converts it to 0; and
  \<^verbatim>\<open>check_value\<close> then refuses the 0 at each of the positions 1 to 5 by writing the
  range message of that position and calling \<^verbatim>\<open>exit(EXIT_FAILURE)\<close>: whatever \<^verbatim>\<open>write\<close>
  answers the process ends there with that status, having passed the syntax check, and
  when \<^verbatim>\<open>write\<close> makes no trouble the range message is what has been written. So
  \<^verbatim>\<open>main\<close> never accepts a command line with an empty argument.
\<close>

theorem empty_argument_range_error:
  assumes "1 \<le> i" "i < argc" "argc \<le> 6" "argv ! nat i = []"
  shows "check_syntax (argv ! nat i) w = Inr w
       \<and> (\<forall>s. check_syntax s w \<noteq> Inr w \<longrightarrow> (\<exists>c\<in>set s. \<not> is_digit c))
       \<and> ft_atoi (argv ! nat i) = 0
       \<and> (\<exists>e. check_value (ft_atoi (argv ! nat i)) i w = Inl e \<and> refused w e)
       \<and> (write_answers w = [] \<longrightarrow>
           check_value (ft_atoi (argv ! nat i)) i w =
             Inl (EXIT_FAILURE, w\<lparr>events := events w @
               (if i = 1 then
                  [Write_fd 2 ''Error: <number_of_philosophers> '',
                   Write_fd 2 ''must be between 1 and 200\<newline>'']
                else if i = 5 then
                  [Write_fd 2 ''Error: <nbr_of_times_each_philosopher_must_eat> '',
                   Write_fd 2 ''must be an integer greater than 0\<newline>'']
                else
                  [Write_fd 2 ''Error: '',
                   Write_fd 2 ''<time_to_die> <time_to_eat> <time_to_sleep> '',
                   Write_fd 2 ''must be integers greater than 0\<newline>''])\<rparr>))
       \<and> EXIT_FAILURE \<noteq> 0
       \<and> (\<exists>e. main n argc argv w = Some e \<and> refused w e
              \<and> (write_answers w = [] \<longrightarrow> new_events w (snd e) \<noteq> []))"
proof -
  have a: "check_syntax (argv ! nat i) w = Inr w" using assms(4) by simp
  have b: "\<forall>s. check_syntax s w \<noteq> Inr w \<longrightarrow> (\<exists>c\<in>set s. \<not> is_digit c)"
    using check_syntax_digits by blast
  have c: "ft_atoi (argv ! nat i) = 0" using assms(4) by (simp add: ft_atoi_def)
  have ne: "check_value 0 i w \<noteq> Inr w"
    using assms(1,2,3)
    by (auto simp: check_value_def and_then_def MAX_PHILO_def split: sum.splits)
  then have d1: "\<exists>e. check_value 0 i w = Inl e \<and> refused w e"
    using check_value_cases [of 0 i w] by simp
  have d: "check_value 0 i w =
           Inl (EXIT_FAILURE, w\<lparr>events := events w @
             (if i = 1 then
                [Write_fd 2 ''Error: <number_of_philosophers> '',
                 Write_fd 2 ''must be between 1 and 200\<newline>'']
              else if i = 5 then
                [Write_fd 2 ''Error: <nbr_of_times_each_philosopher_must_eat> '',
                 Write_fd 2 ''must be an integer greater than 0\<newline>'']
              else
                [Write_fd 2 ''Error: '',
                 Write_fd 2 ''<time_to_die> <time_to_eat> <time_to_sleep> '',
                 Write_fd 2 ''must be integers greater than 0\<newline>''])\<rparr>)"
    if "write_answers w = []"
    using assms(1,2,3) that
    by (auto simp: check_value_def ft_putstr_fd_plain and_then_def emit_def)
  have "check_value (ft_atoi (argv ! nat i)) i w \<noteq> Inr w" using c ne by simp
  then obtain e where "receive_guests argc argv w = Inl e" "refused w e"
    "write_answers w = [] \<longrightarrow> new_events w (snd e) \<noteq> []"
    using receive_guests_bad [OF assms(1,2)] by blast
  then have e: "\<exists>e. main n argc argv w = Some e \<and> refused w e
              \<and> (write_answers w = [] \<longrightarrow> new_events w (snd e) \<noteq> [])"
    by (auto simp: main_refused)
  show ?thesis using a b c d1 d e by (simp add: EXIT_FAILURE_def)
qed

text \<open>The theorem for an empty \<^verbatim>\<open>time_to_eat\<close>.\<close>

theorem empty_argument_range_error_witness:
  "ft_atoi [] = 0
   \<and> check_value (ft_atoi []) 3 boot =
       Inl (EXIT_FAILURE, boot\<lparr>events :=
         [Write_fd 2 ''Error: '',
          Write_fd 2 ''<time_to_die> <time_to_eat> <time_to_sleep> '',
          Write_fd 2 ''must be integers greater than 0\<newline>'']\<rparr>)
   \<and> (\<exists>e. main 0 5 [''philo'', ''5'', ''800'', [], ''200''] boot = Some e \<and> refused boot e
          \<and> new_events boot (snd e) \<noteq> [])"
proof -
  have ev: "events boot = []" "write_answers boot = []" by (simp_all add: boot_def)
  from empty_argument_range_error [of 3 5 "[''philo'', ''5'', ''800'', [], ''200'']" boot 0]
  show ?thesis by (simp add: ev ft_atoi_def)
qed
section \<open>Events of the philosopher's functions\<close>

lemma c_mod_2_even: "c_mod a 2 = 0 \<longleftrightarrow> even a"
  by (auto simp: c_mod_def c_div_def) presburger+

lemma is_dinner_over_False:
  "is_dinner_over p False w =
     (end_flag w \<noteq> 0, w\<lparr>events := events w @ [Lock End_padlock, Unlock End_padlock]\<rparr>)"
  by (simp add: is_dinner_over_def pthread_mutex_lock_def pthread_mutex_unlock_def emit_def Let_def)

lemma is_dinner_over_True:
  "is_dinner_over p True w =
     (True, w\<lparr>end_flag := 1, events := events w @ [Lock End_padlock, Unlock End_padlock]\<rparr>)"
  by (simp add: is_dinner_over_def pthread_mutex_lock_def pthread_mutex_unlock_def emit_def Let_def)

lemma print_action_eq:
  "print_action p action w = w\<lparr>events := events w @ print_events p action w\<rparr>"
  by (simp add: print_action_def is_dinner_over_False pthread_mutex_lock_def
      pthread_mutex_unlock_def emit_def Let_def print_events_def get_current_time_def)

lemma polls_Suc: "polls (Suc k) = [Lock End_padlock, Unlock End_padlock] @ polls k"
  by (simp add: polls_def)

lemma advance_time_loop_shape:
  "\<exists>u k. advance_time_loop p start time_to w =
          w\<lparr>usec := u, events := events w @ polls (Suc k)\<rparr> \<and> usec w \<le> u"
proof (induction p start time_to w rule: advance_time_loop.induct)
  case (1 p start time_to w)
  let ?w1 = "w\<lparr>events := events w @ [Lock End_padlock, Unlock End_padlock]\<rparr>"
  show ?case
  proof (cases "end_flag w = 0 \<and> get_current_time ?w1 - start < time_to")
    case True
    then have step: "advance_time_loop p start time_to w =
        advance_time_loop p start time_to (usleep 100 ?w1)"
      by (subst advance_time_loop.simps) (simp add: is_dinner_over_False)
    have "\<exists>u k. advance_time_loop p start time_to (usleep 100 ?w1) =
         (usleep 100 ?w1)\<lparr>usec := u, events := events (usleep 100 ?w1) @ polls (Suc k)\<rparr>
         \<and> usec (usleep 100 ?w1) \<le> u"
      using True by (intro "1.IH" [of False ?w1]) (simp_all add: is_dinner_over_False)
    then obtain u k where
      "advance_time_loop p start time_to (usleep 100 ?w1) =
         (usleep 100 ?w1)\<lparr>usec := u, events := events (usleep 100 ?w1) @ polls (Suc k)\<rparr>"
      "usec (usleep 100 ?w1) \<le> u"
      by blast
    then have "advance_time_loop p start time_to w =
        w\<lparr>usec := u, events := events w @ polls (Suc (Suc k))\<rparr> \<and> usec w \<le> u"
      using step by (simp add: usleep_def polls_Suc)
    then show ?thesis by blast
  next
    case False
    then have "advance_time_loop p start time_to w = ?w1"
      by (subst advance_time_loop.simps) (auto simp: is_dinner_over_False)
    then have "advance_time_loop p start time_to w =
        w\<lparr>usec := usec w, events := events w @ polls (Suc 0)\<rparr> \<and> usec w \<le> usec w"
      by (simp add: polls_def)
    then show ?thesis by blast
  qed
qed

lemma advance_time_shape:
  "\<exists>u k. advance_time p time_to w =
          w\<lparr>usec := u, events := events w @ polls (Suc k)\<rparr> \<and> usec w \<le> u"
  unfolding advance_time_def by (rule advance_time_loop_shape)


lemma dinner_time_shape:
  "\<exists>u k. dinner_time p w =
     w\<lparr>philo := (philo w)[p := (philo w ! p)
            \<lparr>meal_count := meal_count (philo w ! p) + 1, last_meal := u div 1000\<rparr>],
       usec := u,
       events := events w @ acquire_events p w
         @ print_events p TAKE w @ print_events p TAKE w @ print_events p EAT w
         @ polls (Suc k)
         @ [Lock Eat_padlock, Unlock Eat_padlock,
            Unlock (Fork_padlock (right_fork (philo w ! p))),
            Unlock (Fork_padlock (left_fork (philo w ! p)))]\<rparr>
     \<and> usec w \<le> u"
proof -
  define w1 where "w1 = w\<lparr>events := events w @ acquire_events p w\<rparr>"
  define w4 where "w4 = print_action p EAT (print_action p TAKE (print_action p TAKE w1))"
  have w4: "w4 = w\<lparr>events := events w @ acquire_events p w
         @ print_events p TAKE w @ print_events p TAKE w @ print_events p EAT w\<rparr>"
    by (simp add: w4_def w1_def print_action_eq print_events_def get_current_time_def)
  obtain u k where a: "advance_time p (time_to_eat w4) w4 =
      w4\<lparr>usec := u, events := events w4 @ polls (Suc k)\<rparr>" and u: "usec w4 \<le> u"
    using advance_time_shape by blast
  have first: "(if c_mod (philo_id (philo w ! p)) 2 = 0 then
                  pthread_mutex_lock (Fork_padlock (right_fork (philo w ! p)))
                    (pthread_mutex_lock (Fork_padlock (left_fork (philo w ! p))) w)
                else
                  pthread_mutex_lock (Fork_padlock (left_fork (philo w ! p)))
                    (pthread_mutex_lock (Fork_padlock (right_fork (philo w ! p))) w)) = w1"
    by (simp add: w1_def acquire_events_def c_mod_2_even pthread_mutex_lock_def emit_def)
  have "dinner_time p w =
     w\<lparr>philo := (philo w)[p := (philo w ! p)
            \<lparr>meal_count := meal_count (philo w ! p) + 1, last_meal := u div 1000\<rparr>],
       usec := u,
       events := events w @ acquire_events p w
         @ print_events p TAKE w @ print_events p TAKE w @ print_events p EAT w
         @ polls (Suc k)
         @ [Lock Eat_padlock, Unlock Eat_padlock,
            Unlock (Fork_padlock (right_fork (philo w ! p))),
            Unlock (Fork_padlock (left_fork (philo w ! p)))]\<rparr>"
    unfolding dinner_time_def first Let_def w4_def [symmetric] a
    by (cases "p < length (philo w)")
       (simp_all add: w4 pthread_mutex_lock_def pthread_mutex_unlock_def emit_def
          get_current_time_def list_update_beyond)
  moreover have "usec w \<le> u" using u by (simp add: w4)
  ultimately show ?thesis by blast
qed


lemma new_events_app [simp]: "new_events w (w'\<lparr>events := events w @ tr\<rparr>) = tr"
  by (simp add: new_events_def)

lemma filter_polls [simp]:
  "filter is_fork_lock (polls k) = []" "filter is_fork_unlock (polls k) = []"
  "filter is_printf (polls k) = []"
  by (induction k) (simp_all add: polls_def)

lemma filter_print_events [simp]:
  "filter is_fork_lock (print_events p a w) = []"
  "filter is_fork_unlock (print_events p a w) = []"
  by (simp_all add: print_events_def)

lemma filter_acquire_events [simp]:
  "filter is_fork_lock (acquire_events p w) = acquire_events p w"
  "filter is_fork_unlock (acquire_events p w) = []"
  by (simp_all add: acquire_events_def)

lemma dinner_time_fork_events:
  "take 2 (new_events w (dinner_time p w)) = acquire_events p w
   \<and> filter is_fork_lock (new_events w (dinner_time p w)) = acquire_events p w
   \<and> filter is_fork_unlock (new_events w (dinner_time p w)) =
       [Unlock (Fork_padlock (right_fork (philo w ! p))),
        Unlock (Fork_padlock (left_fork (philo w ! p)))]
   \<and> drop (length (new_events w (dinner_time p w)) - 2) (new_events w (dinner_time p w)) =
       [Unlock (Fork_padlock (right_fork (philo w ! p))),
        Unlock (Fork_padlock (left_fork (philo w ! p)))]"
proof -
  obtain u k where "dinner_time p w =
     w\<lparr>philo := (philo w)[p := (philo w ! p)
            \<lparr>meal_count := meal_count (philo w ! p) + 1, last_meal := u div 1000\<rparr>],
       usec := u,
       events := events w @ acquire_events p w
         @ print_events p TAKE w @ print_events p TAKE w @ print_events p EAT w
         @ polls (Suc k)
         @ [Lock Eat_padlock, Unlock Eat_padlock,
            Unlock (Fork_padlock (right_fork (philo w ! p))),
            Unlock (Fork_padlock (left_fork (philo w ! p)))]\<rparr>"
    using dinner_time_shape by blast
  moreover have "length (acquire_events p w) = 2" by (simp add: acquire_events_def)
  ultimately show ?thesis by simp
qed

text \<open>
  Claim C1. In every eating phase (\<^verbatim>\<open>dinner_time\<close>, from any state and for any
  philosopher) the first two events are the two utensil locks, and they are the only
  utensil locks of the phase: left then right for an even id, right then left for an odd
  id.
\<close>

theorem fork_acquisition_order_by_parity:
  "take 2 (new_events w (dinner_time p w)) =
     (if even (philo_id (philo w ! p))
      then [Lock (Fork_padlock (left_fork (philo w ! p))),
            Lock (Fork_padlock (right_fork (philo w ! p)))]
      else [Lock (Fork_padlock (right_fork (philo w ! p))),
            Lock (Fork_padlock (left_fork (philo w ! p)))])
   \<and> filter is_fork_lock (new_events w (dinner_time p w)) =
       take 2 (new_events w (dinner_time p w))"
  using dinner_time_fork_events [of w p] by (simp add: acquire_events_def)

text \<open>The theorem for philosopher 1 (odd) and philosopher 2 (even) of the table for two:
  both ask for fork 1 first.\<close>

theorem fork_acquisition_order_by_parity_witness:
  "filter is_fork_lock (new_events table2 (dinner_time 0 table2)) =
     [Lock (Fork_padlock 1), Lock (Fork_padlock 0)]
   \<and> filter is_fork_lock (new_events table2 (dinner_time 1 table2)) =
     [Lock (Fork_padlock 1), Lock (Fork_padlock 0)]"
  using fork_acquisition_order_by_parity [of table2 0]
    fork_acquisition_order_by_parity [of table2 1]
  by (simp add: table2_def)

text \<open>
  Claim C2, as stated, fails for an odd id: philosopher 1 of the table for two locks right
  then left, and does not release left then right.
\<close>

theorem release_order_counterexample:
  "odd (philo_id (philo table2 ! 0))
   \<and> filter is_fork_lock (new_events table2 (dinner_time 0 table2)) =
       [Lock (Fork_padlock (right_fork (philo table2 ! 0))),
        Lock (Fork_padlock (left_fork (philo table2 ! 0)))]
   \<and> filter is_fork_unlock (new_events table2 (dinner_time 0 table2)) \<noteq>
       [Unlock (Fork_padlock (left_fork (philo table2 ! 0))),
        Unlock (Fork_padlock (right_fork (philo table2 ! 0)))]"
  using dinner_time_fork_events [of table2 0]
  by (simp add: table2_def acquire_events_def)

text \<open>
  Claim C2, amended. Every eating phase ends with the release of the right utensil and
  then of the left one, whatever the parity of the id, and releases no other utensil.
  For an even id (locked left then right) this is the reverse of the acquisition; for an
  odd id (locked right then left) it is the order of the acquisition.
\<close>

theorem release_order_fixed:
  "filter is_fork_unlock (new_events w (dinner_time p w)) =
     [Unlock (Fork_padlock (right_fork (philo w ! p))),
      Unlock (Fork_padlock (left_fork (philo w ! p)))]
   \<and> drop (length (new_events w (dinner_time p w)) - 2) (new_events w (dinner_time p w)) =
       filter is_fork_unlock (new_events w (dinner_time p w))
   \<and> (even (philo_id (philo w ! p)) \<longrightarrow>
        filter is_fork_lock (new_events w (dinner_time p w)) =
          [Lock (Fork_padlock (left_fork (philo w ! p))),
           Lock (Fork_padlock (right_fork (philo w ! p)))])
   \<and> (odd (philo_id (philo w ! p)) \<longrightarrow>
        filter is_fork_lock (new_events w (dinner_time p w)) =
          [Lock (Fork_padlock (right_fork (philo w ! p))),
           Lock (Fork_padlock (left_fork (philo w ! p)))])"
  using dinner_time_fork_events [of w p] by (simp add: acquire_events_def)

text \<open>The theorem for philosopher 2 (even) and philosopher 1 (odd) of the table for two.\<close>

theorem release_order_fixed_witness:
  "filter is_fork_unlock (new_events table2 (dinner_time 1 table2)) =
     [Unlock (Fork_padlock 0), Unlock (Fork_padlock 1)]
   \<and> filter is_fork_lock (new_events table2 (dinner_time 1 table2)) =
     [Lock (Fork_padlock 1), Lock (Fork_padlock 0)]
   \<and> filter is_fork_unlock (new_events table2 (dinner_time 0 table2)) =
     [Unlock (Fork_padlock 1), Unlock (Fork_padlock 0)]
   \<and> filter is_fork_lock (new_events table2 (dinner_time 0 table2)) =
     [Lock (Fork_padlock 1), Lock (Fork_padlock 0)]"
  using release_order_fixed [of table2 1] release_order_fixed [of table2 0]
  by (simp add: table2_def)

text \<open>
  Claim C9. The events of one call of \<^verbatim>\<open>print_action\<close>: the timestamped line depends on
  the end flag, the notice \<^verbatim>\<open>END_MSG\<close> only on the first character of the action; when
  that character is \<open>e\<close> the notice follows the release of the output lock, also when
  the line was suppressed. \<^verbatim>\<open>END\<close> begins with \<open>e\<close>; the five other event strings begin
  with \<open>h\<close>, \<open>i\<close> or \<open>d\<close>, and a call with one of them never prints the notice.
\<close>

theorem print_action_notice_by_first_char:
  "new_events w (print_action p action w) =
     [Lock Print_padlock, Lock End_padlock, Unlock End_padlock]
     @ (if end_flag w = 0
        then [Printf_line (get_current_time w - start_time w) (philo_id (philo w ! p)) action]
        else [])
     @ [Unlock Print_padlock]
     @ (if first_char action = CHR ''e'' then [Printf_msg END_MSG] else [])
   \<and> first_char END = CHR ''e''
   \<and> (action \<in> {TAKE, EAT, SLEEP, THINK, DIE} \<longrightarrow>
        first_char action \<in> {CHR ''h'', CHR ''i'', CHR ''d''}
        \<and> Printf_msg END_MSG \<notin> set (new_events w (print_action p action w)))"
  by (auto simp: print_action_eq print_events_def first_char_def
      TAKE_def EAT_def SLEEP_def THINK_def DIE_def END_def)

text \<open>The theorem for the marker \<^verbatim>\<open>END\<close> and for \<^verbatim>\<open>THINK\<close>, both after the end flag is
  set.\<close>

theorem print_action_notice_by_first_char_witness:
  "new_events (table2\<lparr>end_flag := 1\<rparr>) (print_action 0 END (table2\<lparr>end_flag := 1\<rparr>)) =
     [Lock Print_padlock, Lock End_padlock, Unlock End_padlock, Unlock Print_padlock,
      Printf_msg END_MSG]
   \<and> new_events (table2\<lparr>end_flag := 1\<rparr>) (print_action 0 THINK (table2\<lparr>end_flag := 1\<rparr>)) =
     [Lock Print_padlock, Lock End_padlock, Unlock End_padlock, Unlock Print_padlock]"
  using print_action_notice_by_first_char [of "table2\<lparr>end_flag := 1\<rparr>" 0 END]
    print_action_notice_by_first_char [of "table2\<lparr>end_flag := 1\<rparr>" 0 THINK]
  by (simp add: first_char_def THINK_def)

section \<open>The monitor: one test, one pass\<close>

lemma starved_frame [simp]:
  "starved p (w\<lparr>events := ev\<rparr>) = starved p w"
  "starved p (w\<lparr>is_full := f\<rparr>) = starved p w"
  "starved p (w\<lparr>end_flag := e\<rparr>) = starved p w"
  by (simp_all add: starved_def get_current_time_def)

lemma satisfied_frame [simp]:
  "satisfied p (w\<lparr>events := ev\<rparr>) = satisfied p w"
  "satisfied p (w\<lparr>is_full := f\<rparr>) = satisfied p w"
  "satisfied p (w\<lparr>end_flag := e\<rparr>) = satisfied p w"
  "satisfied p (w\<lparr>usec := u\<rparr>) = satisfied p w"
  by (simp_all add: satisfied_def)

lemma is_someone_dead_or_full_eq:
  "is_someone_dead_or_full p w =
     (if starved p w then
        (True, w\<lparr>end_flag := 1,
                 events := events w @ [Lock Eat_padlock] @ print_events p DIE w
                   @ [Lock End_padlock, Unlock End_padlock, Unlock Eat_padlock]\<rparr>)
      else if satisfied p w then
        (if is_full w + 1 \<ge> philosopher_count w then
           (True, w\<lparr>is_full := is_full w + 1, end_flag := 1,
                    events := events w @
                      [Lock Eat_padlock, Lock End_padlock, Unlock End_padlock,
                       Lock Print_padlock, Lock End_padlock, Unlock End_padlock,
                       Unlock Print_padlock, Printf_msg END_MSG, Unlock Eat_padlock]\<rparr>)
         else (False, w\<lparr>is_full := is_full w + 1,
                        events := events w @ [Lock Eat_padlock, Unlock Eat_padlock]\<rparr>))
      else (False, w\<lparr>events := events w @ [Lock Eat_padlock, Unlock Eat_padlock]\<rparr>))"
  by (simp add: is_someone_dead_or_full_def starved_def satisfied_def Let_def
      print_action_eq is_dinner_over_True pthread_mutex_lock_def pthread_mutex_unlock_def
      emit_def get_current_time_def print_events_def first_char_def END_def)

lemma monitor_pass_stopped: "cf = 0 \<Longrightarrow> monitor_pass i cf w = (0, w)"
proof (induction i cf w rule: monitor_pass.induct)
  case (1 i cf w)
  then show ?case by (subst monitor_pass.simps) simp
qed




section \<open>The monitor: teardown, quota and death\<close>

lemma upto_step: "i < n \<Longrightarrow> [i..n - 1] = i # [i + 1..n - 1]"
  by (simp add: upto_rec1)

lemma end_dinner_loop_eq:
  "end_dinner_loop i w =
     w\<lparr>events := events w @ map Thread_join [i..philosopher_count w - 1]\<rparr>"
proof (induction i w rule: end_dinner_loop.induct)
  case (1 i w)
  show ?case
  proof (cases "i < philosopher_count w")
    case True
    then show ?thesis
      using "1.IH" by (subst end_dinner_loop.simps) (simp add: emit_def upto_step)
  next
    case False
    then show ?thesis by (subst end_dinner_loop.simps) simp
  qed
qed

lemma unset_rules_loop_eq:
  "unset_rules_loop i w =
     w\<lparr>events := events w @
        map (\<lambda>j. Mutex_destroy (Fork_padlock j)) [i..philosopher_count w - 1]\<rparr>"
proof (induction i w rule: unset_rules_loop.induct)
  case (1 i w)
  show ?case
  proof (cases "i < philosopher_count w")
    case True
    then show ?thesis
      using "1.IH"
      by (subst unset_rules_loop.simps) (simp add: pthread_mutex_destroy_def emit_def upto_step)
  next
    case False
    then show ?thesis by (subst unset_rules_loop.simps) simp
  qed
qed

lemma end_dinner_eq: "end_dinner w = w\<lparr>events := events w @ teardown_events w\<rparr>"
  by (simp add: end_dinner_def clean_table_def unset_rules_def end_dinner_loop_eq
      unset_rules_loop_eq pthread_mutex_destroy_def emit_def teardown_events_def)

lemma filter_printf_teardown [simp]: "filter is_printf (teardown_events w) = []"
  by (simp add: teardown_events_def filter_map o_def)








text \<open>
  Claim C4, as stated, fails for the completion marker: in \<open>fed2\<close> the test of
  philosopher 2 completes the quota, sets the flag, and prints the notice only; the
  timestamped line of the marker \<^verbatim>\<open>END\<close> is not among the events.
\<close>

theorem marker_line_counterexample:
  "end_flag fed2 = 0
   \<and> fst (is_someone_dead_or_full 1 fed2)
   \<and> end_flag (snd (is_someone_dead_or_full 1 fed2)) = 1
   \<and> filter is_printf (new_events fed2 (snd (is_someone_dead_or_full 1 fed2))) =
       [Printf_msg END_MSG]
   \<and> Printf_line (get_current_time fed2 - start_time fed2) (philo_id (philo fed2 ! 1)) END
       \<notin> set (new_events fed2 (snd (is_someone_dead_or_full 1 fed2)))"
proof -
  have "\<not> starved 1 fed2" "satisfied 1 fed2" "philosopher_count fed2 \<le> is_full fed2 + 1"
    "end_flag fed2 = 0"
    by (simp_all add: starved_def satisfied_def fed2_def table2_def get_current_time_def)
  then show ?thesis by (simp add: is_someone_dead_or_full_eq)
qed

text \<open>
  Claim C4, amended. When the monitor finds an actor starved while the flag is unset, the
  death line of that actor is printed and the flag is set by the same test (the line is
  printed first). When the test completes the quota, the flag is set first, so the
  timestamped line of the marker is suppressed and the completion notice is the only
  output. A routine message is suppressed when the flag is already set and printed when it
  is not.
\<close>

theorem triggering_message_emission:
  "(starved p w \<and> end_flag w = 0 \<longrightarrow>
      fst (is_someone_dead_or_full p w)
      \<and> filter is_printf (new_events w (snd (is_someone_dead_or_full p w))) =
          [Printf_line (get_current_time w - start_time w) (philo_id (philo w ! p)) DIE]
      \<and> end_flag (snd (is_someone_dead_or_full p w)) = 1)
   \<and> (\<not> starved p w \<and> satisfied p w \<and> philosopher_count w \<le> is_full w + 1 \<longrightarrow>
      fst (is_someone_dead_or_full p w)
      \<and> filter is_printf (new_events w (snd (is_someone_dead_or_full p w))) =
          [Printf_msg END_MSG]
      \<and> end_flag (snd (is_someone_dead_or_full p w)) = 1)
   \<and> (end_flag w \<noteq> 0 \<and> action \<in> {TAKE, EAT, SLEEP, THINK, DIE} \<longrightarrow>
      filter is_printf (new_events w (print_action q action w)) = [])
   \<and> (end_flag w = 0 \<and> action \<in> {TAKE, EAT, SLEEP, THINK, DIE} \<longrightarrow>
      filter is_printf (new_events w (print_action q action w)) =
        [Printf_line (get_current_time w - start_time w) (philo_id (philo w ! q)) action])"
  by (auto simp: is_someone_dead_or_full_eq print_action_eq print_events_def first_char_def
      TAKE_def EAT_def SLEEP_def THINK_def DIE_def)

text \<open>The theorem at the death of philosopher 1 in \<open>starving2\<close>, at the completion of
  the quota in \<open>fed2\<close>, and for an eating message after and before the flag is set.\<close>

theorem triggering_message_emission_witness:
  "filter is_printf (new_events starving2 (snd (is_someone_dead_or_full 0 starving2))) =
     [Printf_line 801 1 DIE]
   \<and> end_flag (snd (is_someone_dead_or_full 0 starving2)) = 1
   \<and> filter is_printf (new_events fed2 (snd (is_someone_dead_or_full 1 fed2))) =
     [Printf_msg END_MSG]
   \<and> filter is_printf (new_events (table2\<lparr>end_flag := 1\<rparr>)
        (print_action 1 EAT (table2\<lparr>end_flag := 1\<rparr>))) = []
   \<and> filter is_printf (new_events table2 (print_action 1 EAT table2)) =
     [Printf_line 0 2 EAT]"
proof -
  have a: "starved 0 starving2" "end_flag starving2 = 0"
    "get_current_time starving2 - start_time starving2 = 801"
    "philo_id (philo starving2 ! 0) = 1"
    by (simp_all add: starved_def starving2_def table2_def get_current_time_def)
  have b: "\<not> starved 1 fed2" "satisfied 1 fed2" "philosopher_count fed2 \<le> is_full fed2 + 1"
    by (simp_all add: starved_def satisfied_def fed2_def table2_def get_current_time_def)
  have c: "end_flag table2 = 0" "get_current_time table2 - start_time table2 = 0"
    "philo_id (philo table2 ! 1) = 2"
    by (simp_all add: table2_def get_current_time_def)
  from triggering_message_emission [of 0 starving2 EAT 0]
    triggering_message_emission [of 1 fed2 EAT 0]
    triggering_message_emission [of 0 "table2\<lparr>end_flag := 1\<rparr>" EAT 1]
    triggering_message_emission [of 0 table2 EAT 1] a b c
  show ?thesis by simp
qed
section \<open>Setup\<close>

subsection \<open>The concrete tables are what setup builds\<close>

lemma ft_atoi_values:
  "ft_atoi ''1'' = 1" "ft_atoi ''2'' = 2" "ft_atoi ''3'' = 3"
  "ft_atoi ''800'' = 800" "ft_atoi ''200'' = 200"
  by (simp_all add: ft_atoi_def ft_check_overflow_def c_char_def c_div_def c_mod_def
      INT_MAX_def ll_def)


text \<open>The table for one is what \<^verbatim>\<open>set_table\<close> and \<^verbatim>\<open>welcome_philosophers\<close> build from
  the command line \<^verbatim>\<open>./philo 1 800 200 200\<close>.\<close>

lemma setup_one:
  "welcome_philosophers (set_table 5 [''philo'', ''1'', ''800'', ''200'', ''200''] boot)
   = Inr table1"
proof -
  have a: "ft_atoi ''1'' = 1" "ft_atoi ''800'' = 800" "ft_atoi ''200'' = 200"
    by (simp_all add: ft_atoi_def ft_check_overflow_def c_char_def c_div_def c_mod_def
        INT_MAX_def ll_def)
  have b: "set_table 5 [''philo'', ''1'', ''800'', ''200'', ''200''] boot =
      boot\<lparr>philosopher_count := 1, time_to_die := 800, time_to_eat := 200,
              time_to_sleep := 200, must_eat_count := - 1, end_flag := 0\<rparr>"
    by (simp add: set_table_def a int_of_ll_def Let_def)
  show ?thesis
    unfolding b
    by (simp add: welcome_philosophers_def welcome_philosophers_loop.simps boot_def table1_def
        get_current_time_def fresh_philo_def c_mod_def c_div_def)
qed

text \<open>The tables for two and for three come from \<^verbatim>\<open>./philo 2 800 1 1\<close> and
  \<^verbatim>\<open>./philo 3 800 200 200\<close> in the same way.\<close>

lemma setup_two:
  "welcome_philosophers (set_table 5 [''philo'', ''2'', ''800'', ''1'', ''1''] boot)
   = Inr table2"
proof -
  have b: "set_table 5 [''philo'', ''2'', ''800'', ''1'', ''1''] boot =
      boot\<lparr>philosopher_count := 2, time_to_die := 800, time_to_eat := 1,
              time_to_sleep := 1, must_eat_count := - 1, end_flag := 0\<rparr>"
    by (simp add: set_table_def ft_atoi_values int_of_ll_def Let_def)
  show ?thesis
    unfolding b
    by (simp add: welcome_philosophers_def welcome_philosophers_loop.simps boot_def table2_def
        get_current_time_def fresh_philo_def c_mod_def c_div_def numeral_2_eq_2)
qed


subsection \<open>Rollback of the mutexes\<close>





subsection \<open>What \<^verbatim>\<open>ft_putstr_fd\<close> has written when it returns\<close>






subsection \<open>The mutexes that are left\<close>












section \<open>Lock discipline\<close>

lemma held_after_append: "held_after h (a @ b) = held_after (held_after h a) b"
  by (simp add: held_after_def)

lemma held_after_Nil [simp]: "held_after h [] = h"
  by (simp add: held_after_def)

lemma held_after_Cons [simp]: "held_after h (e # tr) = held_after (held_step h e) tr"
  by (simp add: held_after_def)

lemma nested_locking_append:
  "nested_locking h (a @ b) \<longleftrightarrow> nested_locking h a \<and> nested_locking (held_after h a) b"
  by (induction h a rule: nested_locking.induct) simp_all

lemma rank_below_end: "rank x < 3 \<longleftrightarrow> x \<noteq> End_padlock"
  by (cases x) simp_all

lemma rank_below_print: "rank x < 2 \<longleftrightarrow> x \<noteq> End_padlock \<and> x \<noteq> Print_padlock"
  by (cases x) simp_all

lemma may_lock_end: "may_lock h End_padlock \<longleftrightarrow> End_padlock \<notin> set h"
  by (induction h) (auto simp: may_lock_def rank_below_end)

lemma may_lock_print:
  "may_lock h Print_padlock \<longleftrightarrow> End_padlock \<notin> set h \<and> Print_padlock \<notin> set h"
  by (induction h) (auto simp: may_lock_def rank_below_print)

lemma polls_nested:
  "End_padlock \<notin> set h \<Longrightarrow> nested_locking h (polls k) \<and> held_after h (polls k) = h"
  by (induction k) (simp_all add: polls_def may_lock_end)

lemma print_events_nested:
  "End_padlock \<notin> set h \<Longrightarrow> Print_padlock \<notin> set h \<Longrightarrow>
   nested_locking h (print_events p a w) \<and> held_after h (print_events p a w) = h"
  by (simp add: print_events_def may_lock_end may_lock_print)

lemma tidy_Nil [simp]: "tidy []"
  by (simp add: tidy_def)

lemma tidy_append: "tidy a \<Longrightarrow> tidy b \<Longrightarrow> tidy (a @ b)"
  by (simp add: tidy_def nested_locking_append held_after_append)

lemma tidy_polls [simp]: "tidy (polls k)"
  using polls_nested [of "[]" k] by (simp add: tidy_def)

lemma tidy_print_events [simp]: "tidy (print_events p a w)"
  using print_events_nested [of "[]" p a w] by (simp add: tidy_def)

lemma grows_tidily_refl [simp]: "grows_tidily w w"
  by (simp add: grows_tidily_def)

lemma grows_tidily_trans [trans]:
  "grows_tidily w w1 \<Longrightarrow> grows_tidily w1 w2 \<Longrightarrow> grows_tidily w w2"
  unfolding grows_tidily_def using tidy_append by fastforce

lemma grows_tidily_same_events: "events w' = events w \<Longrightarrow> grows_tidily w w'"
  by (simp add: grows_tidily_def)

lemma grows_tidily_app: "tidy tr \<Longrightarrow> grows_tidily w (w'\<lparr>events := events w @ tr\<rparr>)"
  by (simp add: grows_tidily_def)

lemma grows_is_dinner_over: "grows_tidily w (snd (is_dinner_over p b w))"
  by (cases b) (simp_all add: is_dinner_over_False is_dinner_over_True grows_tidily_def
      tidy_def may_lock_def)

lemma grows_print_action: "grows_tidily w (print_action p a w)"
  by (simp add: print_action_eq grows_tidily_app)

lemma grows_advance_time: "grows_tidily w (advance_time p t w)"
proof -
  obtain u k where "advance_time p t w = w\<lparr>usec := u, events := events w @ polls (Suc k)\<rparr>"
    using advance_time_shape by blast
  then show ?thesis by (simp add: grows_tidily_def)
qed

lemma tidy_dinner_time_events:
  "tidy (acquire_events p w
         @ print_events p TAKE w @ print_events p TAKE w @ print_events p EAT w
         @ polls (Suc k)
         @ [Lock Eat_padlock, Unlock Eat_padlock,
            Unlock (Fork_padlock (right_fork (philo w ! p))),
            Unlock (Fork_padlock (left_fork (philo w ! p)))])"
proof -
  let ?l = "Fork_padlock (left_fork (philo w ! p))"
  let ?r = "Fork_padlock (right_fork (philo w ! p))"
  let ?mid = "print_events p TAKE w @ print_events p TAKE w @ print_events p EAT w
         @ polls (Suc k)"
  have mid: "nested_locking h ?mid \<and> held_after h ?mid = h"
    if "End_padlock \<notin> set h" "Print_padlock \<notin> set h" for h
    using that print_events_nested [OF that] polls_nested [OF that(1), of "Suc k"]
    by (simp add: nested_locking_append held_after_append)
  have a: "nested_locking [] (acquire_events p w)"
    by (simp add: acquire_events_def may_lock_def)
  have h: "held_after [] (acquire_events p w) = (if even (philo_id (philo w ! p)) then [?r, ?l] else [?l, ?r])"
    by (simp add: acquire_events_def)
  show ?thesis
  proof (cases "even (philo_id (philo w ! p))")
    case True
    with a h mid [of "[?r, ?l]"] show ?thesis
      by (simp add: tidy_def nested_locking_append held_after_append may_lock_def
          del: append_assoc flip: append_assoc [of "print_events p TAKE w"])
  next
    case False
    with a h mid [of "[?l, ?r]"] show ?thesis
      by (simp add: tidy_def nested_locking_append held_after_append may_lock_def
          del: append_assoc flip: append_assoc [of "print_events p TAKE w"])
  qed
qed


lemma grows_dinner_time: "grows_tidily w (dinner_time p w)"
proof -
  obtain u k where "dinner_time p w =
     w\<lparr>philo := (philo w)[p := (philo w ! p)
            \<lparr>meal_count := meal_count (philo w ! p) + 1, last_meal := u div 1000\<rparr>],
       usec := u,
       events := events w @ acquire_events p w
         @ print_events p TAKE w @ print_events p TAKE w @ print_events p EAT w
         @ polls (Suc k)
         @ [Lock Eat_padlock, Unlock Eat_padlock,
            Unlock (Fork_padlock (right_fork (philo w ! p))),
            Unlock (Fork_padlock (left_fork (philo w ! p)))]\<rparr>"
    using dinner_time_shape by blast
  then show ?thesis
    using tidy_dinner_time_events [of p w k] by (simp add: grows_tidily_def)
qed

lemma grows_lone_philosopher: "grows_tidily w (lone_philosopher w)"
  unfolding lone_philosopher_def Let_def
  by (rule grows_tidily_trans [OF grows_tidily_trans [OF grows_tidily_trans
        [OF grows_print_action grows_advance_time] grows_print_action] grows_is_dinner_over])

lemma grows_dinner_routine_loop: "grows_tidily w (snd (dinner_routine_loop n p w))"
proof (induction n arbitrary: w)
  case 0
  show ?case by simp
next
  case (Suc n)
  show ?case
  proof (cases "philosopher_count w = 1")
    case True
    then show ?thesis by (simp add: grows_lone_philosopher)
  next
    case False
    let ?w1 = "snd (is_dinner_over p False w)"
    show ?thesis
    proof (cases "fst (is_dinner_over p False w)")
      case True
      with False show ?thesis
        using grows_is_dinner_over [of w p False] by (simp add: case_prod_beta)
    next
      case over: False
      let ?w2 = "print_action p THINK ?w1"
      let ?w3 = "dinner_time p ?w2"
      let ?w4 = "print_action p SLEEP ?w3"
      let ?w5 = "advance_time p (time_to_sleep ?w4) ?w4"
      let ?w6 = "if c_mod (philosopher_count ?w5) 2 \<noteq> 0
                 then advance_time p (time_to_eat ?w5) ?w5 else ?w5"
      have "grows_tidily w ?w1" by (rule grows_is_dinner_over)
      also have "grows_tidily ?w1 ?w2" by (rule grows_print_action)
      also have "grows_tidily ?w2 ?w3" by (rule grows_dinner_time)
      also have "grows_tidily ?w3 ?w4" by (rule grows_print_action)
      also have "grows_tidily ?w4 ?w5" by (rule grows_advance_time)
      also have "grows_tidily ?w5 ?w6" by (simp add: grows_advance_time)
      finally have "grows_tidily w ?w6" .
      then have "grows_tidily w (snd (dinner_routine_loop n p ?w6))"
        by (rule grows_tidily_trans) (rule Suc.IH)
      with False over show ?thesis by (simp add: case_prod_beta Let_def)
    qed
  qed
qed

lemma grows_dinner_routine: "grows_tidily w (snd (dinner_routine n p w))"
proof -
  let ?w1 = "if c_mod (philo_id (philo w ! p)) 2 = 0
             then advance_time p (c_div (time_to_eat w) 2) w else w"
  have "grows_tidily w ?w1" by (simp add: grows_advance_time)
  then have "grows_tidily w (snd (dinner_routine_loop n p ?w1))"
    by (rule grows_tidily_trans) (rule grows_dinner_routine_loop)
  then show ?thesis by (simp add: dinner_routine_def Let_def)
qed

lemma grows_is_someone_dead_or_full: "grows_tidily w (snd (is_someone_dead_or_full p w))"
proof -
  have "tidy ([Lock Eat_padlock] @ print_events p DIE w
                   @ [Lock End_padlock, Unlock End_padlock, Unlock Eat_padlock])"
    using print_events_nested [of "[Eat_padlock]" p DIE w]
    by (simp add: tidy_def nested_locking_append held_after_append may_lock_def)
  then show ?thesis
    by (simp add: is_someone_dead_or_full_eq grows_tidily_def tidy_def may_lock_def)
qed

lemma grows_monitor_pass: "grows_tidily w (snd (monitor_pass i cf w))"
proof (induction i cf w rule: monitor_pass.induct)
  case (1 i cf w)
  show ?case
  proof (cases "i < philosopher_count w")
    case False
    then show ?thesis by (subst monitor_pass.simps) simp
  next
    case True
    show ?thesis
    proof (cases "cf = 0")
      case True
      then show ?thesis by (simp add: monitor_pass_stopped)
    next
      case False
      obtain r w1 where eq: "(r, w1) = is_someone_dead_or_full (nat i) w"
        by (metis surj_pair)
      have "grows_tidily w w1"
        using grows_is_someone_dead_or_full [of w "nat i"] eq [symmetric] by simp
      moreover have "grows_tidily w1 (snd (monitor_pass (i + 1) (if r then 0 else cf) w1))"
        by (rule "1.IH"(1) [OF True False eq])
      ultimately have "grows_tidily w (snd (monitor_pass (i + 1) (if r then 0 else cf) w1))"
        by (rule grows_tidily_trans)
      then show ?thesis
        using True False eq [symmetric] by (subst monitor_pass.simps) simp
    qed
  qed
qed

lemma grows_dinner_monitor_loop: "grows_tidily w (snd (dinner_monitor_loop n w))"
proof (induction n arbitrary: w)
  case 0
  show ?case by simp
next
  case (Suc n)
  let ?w0 = "w\<lparr>is_full := 0\<rparr>"
  let ?w2 = "usleep 10 (snd (monitor_pass 0 1 ?w0))"
  have "grows_tidily w ?w0" by (simp add: grows_tidily_same_events)
  moreover have "grows_tidily ?w0 (snd (monitor_pass 0 1 ?w0))" by (rule grows_monitor_pass)
  moreover have "grows_tidily (snd (monitor_pass 0 1 ?w0)) ?w2"
    by (simp add: grows_tidily_same_events usleep_def)
  ultimately have g: "grows_tidily w ?w2"
    using grows_tidily_trans by blast
  then have "grows_tidily w (snd (dinner_monitor_loop n ?w2))"
    by (rule grows_tidily_trans) (rule Suc.IH)
  with g show ?case by (simp add: case_prod_beta Let_def)
qed

lemma tidy_teardown [simp]: "tidy (teardown_events w)"
proof -
  have a: "nested_locking h (map Thread_join xs) \<and> held_after h (map Thread_join xs) = h" for h xs
    by (induction xs) simp_all
  have b: "nested_locking h (map (\<lambda>j. Mutex_destroy (Fork_padlock j)) xs)
         \<and> held_after h (map (\<lambda>j. Mutex_destroy (Fork_padlock j)) xs) = h" for h xs
    by (induction xs) simp_all
  show ?thesis
    using a b by (simp add: teardown_events_def tidy_def nested_locking_append held_after_append)
qed

lemma grows_dinner_monitor: "grows_tidily w (snd (dinner_monitor n w))"
proof -
  have "grows_tidily w (snd (dinner_monitor_loop n w))" by (rule grows_dinner_monitor_loop)
  moreover have "grows_tidily w' (end_dinner w')" for w'
    by (simp add: end_dinner_eq grows_tidily_app)
  ultimately have "grows_tidily w (end_dinner (snd (dinner_monitor_loop n w)))"
    by (rule grows_tidily_trans)
  then show ?thesis
    using \<open>grows_tidily w (snd (dinner_monitor_loop n w))\<close>
    by (simp add: dinner_monitor_def case_prod_beta)
qed

lemma grows_tidily_new_events:
  "grows_tidily w w' \<Longrightarrow>
   nested_locking [] (new_events w w') \<and> held_after [] (new_events w w') = []"
  by (auto simp: grows_tidily_def new_events_def tidy_def)

lemma always_exclusive_prefix: "always_exclusive h (a @ b) \<Longrightarrow> always_exclusive h a"
  by (induction a arbitrary: h) (cases b, auto)

text \<open>
  Claim C3, as stated, fails. After the first four events of an eating phase of
  philosopher 1 at the table for two, the thread holds both utensil locks, the output
  lock and the termination-flag lock at once; and every call of \<^verbatim>\<open>print_action\<close> holds
  the output lock and the termination-flag lock together.
\<close>

theorem locks_held_together_counterexample:
  "held_after [] (take 4 (new_events table2 (dinner_time 0 table2))) =
     [End_padlock, Print_padlock, Fork_padlock 0, Fork_padlock 1]
   \<and> \<not> exclusive (held_after [] (take 4 (new_events table2 (dinner_time 0 table2))))
   \<and> \<not> always_exclusive [] (new_events table2 (dinner_time 0 table2))
   \<and> \<not> always_exclusive [] (new_events table2 (print_action 0 THINK table2))"
proof -
  have t: "end_flag table2 = 0" "philo_id (philo table2 ! 0) = 1"
    "left_fork (philo table2 ! 0) = 0" "right_fork (philo table2 ! 0) = 1"
    by (simp_all add: table2_def)
  have acq: "acquire_events 0 table2 = [Lock (Fork_padlock 1), Lock (Fork_padlock 0)]"
    by (simp add: acquire_events_def t)
  obtain rest where pe: "print_events 0 TAKE table2 = Lock Print_padlock # Lock End_padlock # rest"
    by (simp add: print_events_def)
  obtain u k where "dinner_time 0 table2 =
     table2\<lparr>philo := (philo table2)[0 := (philo table2 ! 0)
            \<lparr>meal_count := meal_count (philo table2 ! 0) + 1, last_meal := u div 1000\<rparr>],
       usec := u,
       events := events table2 @ acquire_events 0 table2
         @ print_events 0 TAKE table2 @ print_events 0 TAKE table2 @ print_events 0 EAT table2
         @ polls (Suc k)
         @ [Lock Eat_padlock, Unlock Eat_padlock,
            Unlock (Fork_padlock (right_fork (philo table2 ! 0))),
            Unlock (Fork_padlock (left_fork (philo table2 ! 0)))]\<rparr>"
    using dinner_time_shape by blast
  then have "new_events table2 (dinner_time 0 table2) =
      acquire_events 0 table2
         @ print_events 0 TAKE table2 @ print_events 0 TAKE table2 @ print_events 0 EAT table2
         @ polls (Suc k)
         @ [Lock Eat_padlock, Unlock Eat_padlock,
            Unlock (Fork_padlock (right_fork (philo table2 ! 0))),
            Unlock (Fork_padlock (left_fork (philo table2 ! 0)))]"
    by simp
  then obtain tl where tr: "new_events table2 (dinner_time 0 table2) =
      [Lock (Fork_padlock 1), Lock (Fork_padlock 0), Lock Print_padlock, Lock End_padlock] @ tl"
    unfolding acq pe by simp
  have a: "\<not> always_exclusive []
      [Lock (Fork_padlock 1), Lock (Fork_padlock 0), Lock Print_padlock, Lock End_padlock]"
    by (simp add: exclusive_def)
  have b: "\<not> always_exclusive [] (new_events table2 (dinner_time 0 table2))"
    unfolding tr using a always_exclusive_prefix by blast
  have c: "\<not> always_exclusive [] (new_events table2 (print_action 0 THINK table2))"
    by (simp add: print_action_eq print_events_def exclusive_def t)
  show ?thesis using b c unfolding tr by (simp add: exclusive_def)
qed

text \<open>
  Claim C3, amended. In every run of a philosopher thread and of the monitor, whatever
  the state and however many rounds, each lock is requested only while all locks held
  come earlier in the order utensil, meal bookkeeping, output, termination flag: no lock
  is requested while the termination-flag lock is held, only the termination-flag lock is
  requested while the output lock is held, and no utensil lock is requested while the
  meal-bookkeeping, output or termination-flag lock is held. Every unlock releases a
  lock that is held, and after each completed round no lock is held.
\<close>

theorem locks_nested_in_one_order:
  "nested_locking [] (new_events w (snd (dinner_routine n p w)))
   \<and> held_after [] (new_events w (snd (dinner_routine n p w))) = []
   \<and> nested_locking [] (new_events w (snd (dinner_monitor n w)))
   \<and> held_after [] (new_events w (snd (dinner_monitor n w))) = []"
  using grows_tidily_new_events [OF grows_dinner_routine [of w n p]]
    grows_tidily_new_events [OF grows_dinner_monitor [of w n]]
  by simp

text \<open>The theorem for two rounds of philosopher 1 and two passes of the monitor at the
  table for two.\<close>

theorem locks_nested_in_one_order_witness:
  "nested_locking [] (new_events table2 (snd (dinner_routine 2 0 table2)))
   \<and> held_after [] (new_events table2 (snd (dinner_routine 2 0 table2))) = []
   \<and> nested_locking [] (new_events table2 (snd (dinner_monitor 2 table2)))"
  using locks_nested_in_one_order [of table2 2 0] by simp

section \<open>The lone philosopher\<close>











end
